theory Spec2Isabelle
  imports Main "HOL-Library.Word" "HOL-Library.Multiset" "HOL-Library.Signed_Division"
begin

section \<open>Data model\<close>

text \<open>
  Modelled from the spec: the types of the imported package \<^verbatim>\<open>clockmail/pkg/model\<close>
  (\<^verbatim>\<open>Agent\<close>, \<^verbatim>\<open>Event\<close>, \<^verbatim>\<open>Lock\<close>, \<^verbatim>\<open>Pointstamp\<close>, \<^verbatim>\<open>EventKind\<close>) are declared outside this
  repository. Their fields are the ones the viewer reads. An \<^verbatim>\<open>int64\<close> that is only compared
  or copied is an \<open>int\<close>; wall-clock instants and durations are nanosecond counts.
  \<^verbatim>\<open>EventKind\<close> is a string type with four named constants; every other value is
  \<open>EventOther\<close>.
\<close>

datatype EventKind = EventMsg | EventLockReq | EventLockRel | EventProgress | EventOther string

record Agent =
  ID :: string
  Clock :: int
  Epoch :: int
  Round :: int
  Registered :: int
  LastSeen :: int

record Lock =
  Path :: string
  AgentID :: string
  LamportTS :: int
  Epoch :: int
  Exclusive :: bool
  ExpiresAt :: int

record Timestamp =
  Epoch :: int
  Round :: int

record Pointstamp =
  Timestamp :: Timestamp
  AgentID :: string

record FrontierStatus =
  SafeToFinalize :: bool
  BlockedBy :: "Pointstamp list"

record Event =
  ID :: int
  AgentID :: string
  LamportTS :: int
  Kind :: EventKind
  Target :: string
  Body :: string
  Epoch :: int
  Round :: int
  CreatedAt :: int

text \<open>
  \<^verbatim>\<open>snapshot.DataSnapshot\<close> (internal/snapshot/snapshot.go). Its field \<^verbatim>\<open>FrontierStatus\<close> is
  \<open>FrontierStatusMap\<close> here, apart from the record of that name.
\<close>

record DataSnapshot =
  Agents :: "Agent list"
  Events :: "Event list"
  Locks :: "Lock list"
  Frontier :: "Pointstamp list"
  FrontierStatusMap :: "string \<rightharpoonup> FrontierStatus"
  ActiveAgents :: int
  StaleAgents :: int
  TotalEvents :: int
  ActiveLocks :: int
  BuiltAt :: int

section \<open>Causal/timeline analyzer (cmd/cmv/main.go)\<close>

record timelineGroup =
  lamportTS :: int
  events :: "Event list"

text \<open>
  The body of the \<^verbatim>\<open>for _, e := range events\<close> loop of \<^verbatim>\<open>groupByLamport\<close>: the finished groups
  and the group being filled are the loop's state; after the loop the current group is
  appended.
\<close>

fun groupByLamport_loop :: "Event list \<Rightarrow> timelineGroup list \<Rightarrow> timelineGroup \<Rightarrow> timelineGroup list" where
  "groupByLamport_loop [] groups current = groups @ [current]"
| "groupByLamport_loop (e # es) groups current =
     (if Event.LamportTS e \<noteq> lamportTS current
      then groupByLamport_loop es (groups @ [current])
             \<lparr>lamportTS = Event.LamportTS e, events = [e]\<rparr>
      else groupByLamport_loop es groups (current\<lparr>events := events current @ [e]\<rparr>))"

definition groupByLamport :: "Event list \<Rightarrow> timelineGroup list" where
  "groupByLamport evs =
     (case evs of
        [] \<Rightarrow> []
      | e0 # _ \<Rightarrow> groupByLamport_loop evs [] \<lparr>lamportTS = Event.LamportTS e0, events = []\<rparr>)"

text \<open>The loop of \<^verbatim>\<open>isConcurrentGroup\<close> over \<^verbatim>\<open>g.events[1:]\<close>, returning at the first mismatch.\<close>

fun isConcurrentGroup_loop :: "string \<Rightarrow> Event list \<Rightarrow> bool" where
  "isConcurrentGroup_loop first [] = False"
| "isConcurrentGroup_loop first (e # es) =
     (if Event.AgentID e \<noteq> first then True else isConcurrentGroup_loop first es)"

definition isConcurrentGroup :: "timelineGroup \<Rightarrow> bool" where
  "isConcurrentGroup g =
     (if length (events g) \<le> 1 then False
      else isConcurrentGroup_loop (Event.AgentID (hd (events g))) (tl (events g)))"

text \<open>
  \<^verbatim>\<open>buildCausalSet\<close> fills a \<^verbatim>\<open>map[int64]bool\<close> keyed by event id. Reading a Go map at an
  absent key gives \<^verbatim>\<open>false\<close>, so the map is a total function to \<open>bool\<close>.
\<close>

fun buildCausalSet_loop :: "Event list \<Rightarrow> (int \<Rightarrow> bool) \<Rightarrow> (int \<Rightarrow> bool)" where
  "buildCausalSet_loop [] causal = causal"
| "buildCausalSet_loop (e # es) causal =
     (if Kind e = EventMsg then buildCausalSet_loop es (causal(Event.ID e := True))
      else buildCausalSet_loop es causal)"

definition buildCausalSet :: "Event list \<Rightarrow> (int \<Rightarrow> bool)" where
  "buildCausalSet evs = buildCausalSet_loop evs (\<lambda>_. False)"

text \<open>
  The causal indicator of \<^verbatim>\<open>renderTimeline\<close>: an event is drawn with the arrow exactly when
  \<^verbatim>\<open>causalIDs[e.ID]\<close> is true.
\<close>

definition markedCausal :: "Event list \<Rightarrow> Event \<Rightarrow> bool" where
  "markedCausal evs e = buildCausalSet evs (Event.ID e)"

section \<open>Text helpers (cmd/cmv/main.go)\<close>

text \<open>
  Go strings are byte sequences and \<^verbatim>\<open>len\<close>, \<^verbatim>\<open>s[i]\<close>, \<^verbatim>\<open>s[a:b]\<close> count bytes; a \<open>string\<close> here is
  the list of those bytes.

  The inner loop of \<^verbatim>\<open>wrapParagraph\<close>, \<^verbatim>\<open>for i := width; i > 0; i-- { if s[i] == ' ' ... }\<close>, which
  leaves \<^verbatim>\<open>cut\<close> at \<open>-1\<close> when it finds no space. It runs only when \<^verbatim>\<open>len(s) > width\<close>, so every
  index it reads is in range.
\<close>

fun findCut :: "string \<Rightarrow> nat \<Rightarrow> int" where
  "findCut s 0 = - 1"
| "findCut s (Suc i) = (if s ! Suc i = CHR '' '' then int (Suc i) else findCut s i)"

text \<open>
  The outer loop \<^verbatim>\<open>for len(s) > 0\<close> of \<^verbatim>\<open>wrapParagraph\<close>. With \<^verbatim>\<open>width = 0\<close> the hard split
  removes nothing and the Go loop never ends, so the loop is a partial function and \<open>None\<close>
  stands for not returning. \<^verbatim>\<open>wrapText\<close>, the only caller, passes a positive width.
\<close>

partial_function (option) wrapParagraph_loop :: "string \<Rightarrow> nat \<Rightarrow> string list \<Rightarrow> string list option" where
  "wrapParagraph_loop s width lines =
     (if length s > 0 then
        (if length s \<le> width then Some (lines @ [s])
         else (let cut = findCut s width in
               if cut \<le> 0
               then wrapParagraph_loop (drop width s) width (lines @ [take width s])
               else wrapParagraph_loop (drop (nat cut + 1) s) width (lines @ [take (nat cut) s])))
      else Some lines)"

declare wrapParagraph_loop.simps [code]

definition wrapParagraph :: "string \<Rightarrow> nat \<Rightarrow> string list option" where
  "wrapParagraph s width =
     (if length s \<le> width then Some [s] else wrapParagraph_loop s width [])"

text \<open>
  \<^verbatim>\<open>strings.Split(s, "\n")\<close> of the Go standard library: the pieces between the newline bytes,
  one more piece than there are newlines.
\<close>

fun split_newline_from :: "string \<Rightarrow> string \<Rightarrow> string list" where
  "split_newline_from cur [] = [cur]"
| "split_newline_from cur (c # cs) =
     (if c = CHR 0x0A then cur # split_newline_from [] cs
      else split_newline_from (cur @ [c]) cs)"

definition split_newline :: "string \<Rightarrow> string list" where
  "split_newline s = split_newline_from [] s"

fun wrapText_loop :: "string list \<Rightarrow> nat \<Rightarrow> string list \<Rightarrow> string list option" where
  "wrapText_loop [] width lines = Some lines"
| "wrapText_loop (para # paragraphs) width lines =
     (case wrapParagraph para width of
        None \<Rightarrow> None
      | Some ls \<Rightarrow> wrapText_loop paragraphs width (lines @ ls))"

definition wrapText :: "string \<Rightarrow> int \<Rightarrow> string list option" where
  "wrapText s width =
     (let width = (if width \<le> 0 then 80 else width)
      in wrapText_loop (split_newline s) (nat width) [])"

text \<open>\<^verbatim>\<open>truncate\<close>; it is only called with a positive \<open>n\<close>.\<close>

definition truncateText :: "string \<Rightarrow> nat \<Rightarrow> string" where
  "truncateText s n = (if length s \<le> n then s else take n s @ ''...'')"

section \<open>Space-time diagram layout (cmd/cmv/main.go)\<close>

record diagramCell =
  event :: Event
  label :: string

record diagramMsg =
  fromAgent :: string
  toAgent :: string
  body :: string

record diagramRow =
  lamportTS :: int
  cells :: "string \<rightharpoonup> diagramCell"
  messages :: "diagramMsg list"

text \<open>The \<^verbatim>\<open>switch e.Kind\<close> of \<^verbatim>\<open>buildDiagramData\<close> that picks the cell label.\<close>

fun diagramLabel :: "EventKind \<Rightarrow> string" where
  "diagramLabel EventMsg = ''>''"
| "diagramLabel EventLockReq = ''L''"
| "diagramLabel EventLockRel = ''U''"
| "diagramLabel EventProgress = ''*''"
| "diagramLabel (EventOther k) = ''?''"

text \<open>
  One iteration of \<^verbatim>\<open>for _, e := range events\<close>. \<^verbatim>\<open>rowMap\<close> is a \<^verbatim>\<open>map[int64]*diagramRow\<close>: each
  key owns its row object and the loop writes through the pointer, which here is an update
  of the map at that key. \<^verbatim>\<open>timestamps\<close> records the keys in order of first appearance.
\<close>

definition buildDiagramData_step ::
  "Event \<Rightarrow> (int \<rightharpoonup> diagramRow) \<times> int list \<Rightarrow> (int \<rightharpoonup> diagramRow) \<times> int list" where
  "buildDiagramData_step e st =
     (let rowMap = fst st; timestamps = snd st;
          ts = Event.LamportTS e;
          fresh = \<lparr>lamportTS = ts, cells = Map.empty, messages = []\<rparr>;
          row = (case rowMap ts of Some r \<Rightarrow> r | None \<Rightarrow> fresh);
          timestamps = (case rowMap ts of Some r \<Rightarrow> timestamps | None \<Rightarrow> timestamps @ [ts]);
          row = row\<lparr>cells := (cells row)(Event.AgentID e \<mapsto> \<lparr>event = e, label = diagramLabel (Kind e)\<rparr>)\<rparr>;
          row = (if Kind e = EventMsg \<and> Target e \<noteq> []
                 then row\<lparr>messages := messages row @
                        [\<lparr>fromAgent = Event.AgentID e, toAgent = Target e, body = Body e\<rparr>]\<rparr>
                 else row)
      in (rowMap(ts \<mapsto> row), timestamps))"

fun buildDiagramData_loop ::
  "Event list \<Rightarrow> (int \<rightharpoonup> diagramRow) \<times> int list \<Rightarrow> (int \<rightharpoonup> diagramRow) \<times> int list" where
  "buildDiagramData_loop [] st = st"
| "buildDiagramData_loop (e # es) st = buildDiagramData_loop es (buildDiagramData_step e st)"

text \<open>
  \<^verbatim>\<open>sortInt64s\<close>: the inner loop \<^verbatim>\<open>for j := i; j > 0 && s[j] < s[j-1]; j--\<close> swaps neighbours in
  place; it starts at \<^verbatim>\<open>j = i < len(s)\<close>, so both reads are in range. The outer loop runs \<open>i\<close>
  from 1 to \<^verbatim>\<open>len(s) - 1\<close>, and the swaps keep the length.
\<close>

fun sortInt64s_inner :: "int list \<Rightarrow> nat \<Rightarrow> int list" where
  "sortInt64s_inner s j =
     (if j > 0 \<and> s ! j < s ! (j - 1)
      then sortInt64s_inner (s[j := s ! (j - 1), j - 1 := s ! j]) (j - 1)
      else s)"

definition sortInt64s :: "int list \<Rightarrow> int list" where
  "sortInt64s s = fold (\<lambda>i s. sortInt64s_inner s i) [1..<length s] s"

text \<open>
  The last loop reads \<^verbatim>\<open>*rowMap[ts]\<close> for every sorted timestamp; a key absent from the map
  would be a nil dereference, which is the result \<open>None\<close>.
\<close>

fun buildDiagramData_rows :: "(int \<rightharpoonup> diagramRow) \<Rightarrow> int list \<Rightarrow> diagramRow list option" where
  "buildDiagramData_rows rowMap [] = Some []"
| "buildDiagramData_rows rowMap (ts # tss) =
     (case rowMap ts of
        None \<Rightarrow> None
      | Some r \<Rightarrow> (case buildDiagramData_rows rowMap tss of
                    None \<Rightarrow> None
                  | Some rs \<Rightarrow> Some (r # rs)))"

definition buildDiagramData :: "Agent list \<Rightarrow> Event list \<Rightarrow> (string list \<times> diagramRow list) option" where
  "buildDiagramData agents evs =
     (let agentOrder = map Agent.ID agents;
          st = buildDiagramData_loop evs (Map.empty, []);
          timestamps = sortInt64s (snd st)
      in case buildDiagramData_rows (fst st) timestamps of
           None \<Rightarrow> None
         | Some rows \<Rightarrow> Some (agentOrder, rows))"

declare sortInt64s_inner.simps [simp del]

text \<open>
  The cell that \<^verbatim>\<open>renderDiagram\<close> finds for a clock value and an agent: the row with that
  \<^verbatim>\<open>lamportTS\<close>, then \<^verbatim>\<open>row.cells[ag]\<close>.
\<close>

definition diagramCellAt ::
  "(string list \<times> diagramRow list) option \<Rightarrow> int \<Rightarrow> string \<Rightarrow> diagramCell option" where
  "diagramCellAt res ts ag =
     (case res of
        None \<Rightarrow> None
      | Some (agentOrder, rows) \<Rightarrow>
          (case find (\<lambda>r. lamportTS r = ts) rows of
             None \<Rightarrow> None
           | Some r \<Rightarrow> cells r ag))"

text \<open>
  The last event of a list with a given clock value and agent id, as a diagram cell; used to
  state what the loop of \<^verbatim>\<open>buildDiagramData\<close> leaves in a cell.
\<close>

definition lastCell :: "Event list \<Rightarrow> int \<Rightarrow> string \<Rightarrow> diagramCell option" where
  "lastCell evs ts ag =
     (let xs = filter (\<lambda>x. Event.LamportTS x = ts \<and> Event.AgentID x = ag) evs
      in if xs = [] then None
         else Some \<lparr>event = last xs, label = diagramLabel (Kind (last xs))\<rparr>)"

definition diagram_inv :: "(int \<rightharpoonup> diagramRow) \<times> int list \<Rightarrow> Event list \<Rightarrow> bool" where
  "diagram_inv st seen =
     (distinct (snd st) \<and> set (snd st) = Event.LamportTS ` set seen \<and> dom (fst st) = set (snd st)
      \<and> (\<forall>ts r. fst st ts = Some r \<longrightarrow> lamportTS r = ts \<and> (\<forall>ag. cells r ag = lastCell seen ts ag)))"

section \<open>Navigation state machine (cmd/cmv/main.go)\<close>

text \<open>The \<^verbatim>\<open>viewID\<close> constants, an \<^verbatim>\<open>iota\<close> enumeration over \<^verbatim>\<open>int\<close>.\<close>

abbreviation (input) viewDashboard :: int where "viewDashboard \<equiv> 0"
abbreviation (input) viewMessages :: int where "viewMessages \<equiv> 1"
abbreviation (input) viewLocks :: int where "viewLocks \<equiv> 2"
abbreviation (input) viewFrontier :: int where "viewFrontier \<equiv> 3"
abbreviation (input) viewTimeline :: int where "viewTimeline \<equiv> 4"
abbreviation (input) viewDiagram :: int where "viewDiagram \<equiv> 5"
abbreviation (input) viewCount :: int where "viewCount \<equiv> 6"
abbreviation (input) viewAgentDetail :: int where "viewAgentDetail \<equiv> 7"

text \<open>
  The fields of \<^verbatim>\<open>uiModel\<close> that \<^verbatim>\<open>Update\<close> reads or writes. The store and watcher handles are
  only closed on quit, and \<^verbatim>\<open>help.Width\<close> is the one field of the help widget that is set.
  \<^verbatim>\<open>snap\<close> is a pointer that is never nil: \<^verbatim>\<open>main\<close> builds the first snapshot before the model
  and \<^verbatim>\<open>Update\<close> replaces it only by a non-nil one.
\<close>

record uiModel =
  snap :: DataSnapshot
  activeView :: int
  prevView :: int
  width :: int
  height :: int
  scrollPos :: int
  selectedAgent :: int
  detailAgentID :: string
  filterAgent :: string
  helpWidth :: int
  showHelp :: bool
  lastRefresh :: int

text \<open>
  The messages \<^verbatim>\<open>Update\<close> switches on. A key message is the string \<^verbatim>\<open>msg.String()\<close>; a
  snapshot-ready message carries the snapshot pointer (\<open>None\<close> for nil) and the error
  (\<open>None\<close> for nil). The returned \<^verbatim>\<open>tea.Cmd\<close> is one of four: nil, \<^verbatim>\<open>tea.Quit\<close> (after closing
  watcher and store), \<^verbatim>\<open>m.refreshSnapshot()\<close> and \<^verbatim>\<open>tickEvery()\<close>.
\<close>

datatype msg =
    KeyMsg string
  | WindowSizeMsg int int
  | DbChangedMsg
  | SnapshotReadyMsg "DataSnapshot option" "string option"
  | TickMsg
  | OtherMsg

datatype cmd = CmdNone | CmdQuit | CmdRefreshSnapshot | CmdTickEvery

fun viewKeys :: "string \<Rightarrow> int option" where
  "viewKeys k =
     (if k = ''d'' then Some viewDashboard
      else if k = ''m'' then Some viewMessages
      else if k = ''l'' then Some viewLocks
      else if k = ''f'' then Some viewFrontier
      else if k = ''t'' then Some viewTimeline
      else if k = ''s'' then Some viewDiagram
      else None)"

text \<open>The key bindings \<^verbatim>\<open>keys\<close>; \<^verbatim>\<open>key.Matches\<close> holds when the key string is one of a binding's keys.\<close>

datatype binding = Quit | Tab | Refresh | Up | Down | Help | Enter | Esc | Filter

fun bindingKeys :: "binding \<Rightarrow> string list" where
  "bindingKeys Quit = [''q'', ''ctrl+c'']"
| "bindingKeys Tab = [''tab'']"
| "bindingKeys Refresh = [''r'']"
| "bindingKeys Up = [''up'', ''k'']"
| "bindingKeys Down = [''down'', ''j'']"
| "bindingKeys Help = [''?'']"
| "bindingKeys Enter = [''enter'']"
| "bindingKeys Esc = [''esc'']"
| "bindingKeys Filter = [''/'']"

definition keyMatches :: "string \<Rightarrow> binding \<Rightarrow> bool" where
  "keyMatches k b = (k \<in> set (bindingKeys b))"

text \<open>
  The search of the filter case: the agent after the first one whose id is the current
  filter, or the empty filter when that agent is the last one or no agent has the id.
\<close>

fun filterNext :: "Agent list \<Rightarrow> string \<Rightarrow> string" where
  "filterNext [] f = []"
| "filterNext (ag # rest) f =
     (if Agent.ID ag = f
      then (case rest of [] \<Rightarrow> [] | nxt # _ \<Rightarrow> Agent.ID nxt)
      else filterNext rest f)"

definition clearFilterOutside :: "uiModel \<Rightarrow> uiModel" where
  "clearFilterOutside m =
     (if activeView m \<noteq> viewMessages \<and> activeView m \<noteq> viewTimeline
      then m\<lparr>filterAgent := []\<rparr> else m)"

text \<open>
  The key cases of \<^verbatim>\<open>Update\<close>. The scroll bound \<^verbatim>\<open>maxScroll\<close> is computed in Go's 64-bit \<^verbatim>\<open>int\<close>,
  which wraps; the other sums stay below their guards.
\<close>

definition updateKey :: "uiModel \<Rightarrow> string \<Rightarrow> uiModel \<times> cmd" where
  "updateKey m k =
     (case viewKeys k of
        Some v \<Rightarrow> (clearFilterOutside (m\<lparr>activeView := v, scrollPos := 0, detailAgentID := []\<rparr>), CmdNone)
      | None \<Rightarrow>
         (let agents = Agents (snap m); n = int (length agents) in
          if keyMatches k Quit then (m, CmdQuit)
          else if keyMatches k Esc then
            (if activeView m = viewAgentDetail
             then (m\<lparr>activeView := viewDashboard, detailAgentID := [], scrollPos := 0\<rparr>, CmdNone)
             else (m, CmdNone))
          else if keyMatches k Enter then
            (if activeView m = viewDashboard \<and> n > 0 \<and> selectedAgent m \<ge> 0 \<and> selectedAgent m < n
             then (m\<lparr>detailAgentID := Agent.ID (agents ! nat (selectedAgent m)),
                      prevView := activeView m, activeView := viewAgentDetail, scrollPos := 0\<rparr>, CmdNone)
             else (m, CmdNone))
          else if keyMatches k Tab then
            (let m1 = (if activeView m = viewAgentDetail
                       then m\<lparr>activeView := viewDashboard, detailAgentID := []\<rparr>
                       else m\<lparr>activeView := (activeView m + 1) smod viewCount\<rparr>)
             in ((clearFilterOutside m1)\<lparr>scrollPos := 0\<rparr>, CmdNone))
          else if keyMatches k Refresh then (m, CmdRefreshSnapshot)
          else if keyMatches k Up then
            (if activeView m = viewDashboard
             then (if selectedAgent m > 0 then (m\<lparr>selectedAgent := selectedAgent m - 1\<rparr>, CmdNone)
                   else (m, CmdNone))
             else (if scrollPos m > 0 then (m\<lparr>scrollPos := scrollPos m - 1\<rparr>, CmdNone)
                   else (m, CmdNone)))
          else if keyMatches k Down then
            (if activeView m = viewDashboard
             then (if selectedAgent m < n - 1 then (m\<lparr>selectedAgent := selectedAgent m + 1\<rparr>, CmdNone)
                   else (m, CmdNone))
             else (let maxScroll = signed_take_bit 63
                                     ((TotalEvents (snap m) + n + int (length (Locks (snap m)))) * 8 + 20)
                   in if scrollPos m < maxScroll then (m\<lparr>scrollPos := scrollPos m + 1\<rparr>, CmdNone)
                      else (m, CmdNone)))
          else if keyMatches k Filter then
            (if activeView m = viewMessages \<or> activeView m = viewTimeline
             then (let f = (if filterAgent m = [] \<and> n > 0 then Agent.ID (hd agents)
                            else filterNext agents (filterAgent m))
                   in (m\<lparr>filterAgent := f, scrollPos := 0\<rparr>, CmdNone))
             else (m, CmdNone))
          else if keyMatches k Help then (m\<lparr>showHelp := \<not> showHelp m\<rparr>, CmdNone)
          else (m, CmdNone)))"

text \<open>
  \<^verbatim>\<open>Update\<close>. The clock read \<^verbatim>\<open>time.Now()\<close> of the snapshot-ready case is the argument \<open>now\<close>.
\<close>

definition Update :: "int \<Rightarrow> uiModel \<Rightarrow> msg \<Rightarrow> uiModel \<times> cmd" where
  "Update now m ms =
     (case ms of
        KeyMsg k \<Rightarrow> updateKey m k
      | WindowSizeMsg w h \<Rightarrow> (m\<lparr>width := w, height := h, helpWidth := w\<rparr>, CmdNone)
      | DbChangedMsg \<Rightarrow> (m, CmdRefreshSnapshot)
      | SnapshotReadyMsg sn err \<Rightarrow>
          (case (err, sn) of
             (None, Some s) \<Rightarrow>
               (let m1 = m\<lparr>snap := s, lastRefresh := now\<rparr>;
                    n = int (length (Agents (snap m1)))
                in if n = 0 then (m1\<lparr>selectedAgent := 0\<rparr>, CmdNone)
                   else if selectedAgent m1 \<ge> n then (m1\<lparr>selectedAgent := n - 1\<rparr>, CmdNone)
                   else (m1, CmdNone))
           | _ \<Rightarrow> (m, CmdNone))
      | TickMsg \<Rightarrow> (m, CmdTickEvery)
      | OtherMsg \<Rightarrow> (m, CmdNone))"

text \<open>
  The model \<^verbatim>\<open>main\<close> hands to the runtime: \<^verbatim>\<open>newModel\<close> (every navigation field zero), then the
  \<^verbatim>\<open>--view\<close> flag (\<^verbatim>\<open>parseViewFlag\<close> gives one of the six tab views or ends the program), then the
  \<^verbatim>\<open>--agent\<close> flag, which focuses the first agent with that id if there is one.
\<close>

definition newModel :: "int \<Rightarrow> DataSnapshot \<Rightarrow> uiModel" where
  "newModel now s =
     \<lparr>snap = s, activeView = 0, prevView = 0, width = 0, height = 0, scrollPos = 0,
      selectedAgent = 0, detailAgentID = [], filterAgent = [], helpWidth = 0,
      showHelp = False, lastRefresh = now\<rparr>"

fun applyAgentFlag :: "Agent list \<Rightarrow> string \<Rightarrow> int \<Rightarrow> uiModel \<Rightarrow> uiModel" where
  "applyAgentFlag [] flag i m = m"
| "applyAgentFlag (ag # rest) flag i m =
     (if Agent.ID ag = flag
      then m\<lparr>selectedAgent := i, detailAgentID := Agent.ID ag, activeView := viewAgentDetail\<rparr>
      else applyAgentFlag rest flag (i + 1) m)"

definition initialModel :: "int \<Rightarrow> DataSnapshot \<Rightarrow> int option \<Rightarrow> string \<Rightarrow> uiModel" where
  "initialModel now s viewFlag agentFlag =
     (let m = newModel now s;
          m = (case viewFlag of None \<Rightarrow> m | Some v \<Rightarrow> m\<lparr>activeView := v\<rparr>)
      in if agentFlag \<noteq> [] then applyAgentFlag (Agents s) agentFlag 0 m else m)"

text \<open>The states of the running program: the initial model, then any sequence of messages.\<close>

inductive reachable :: "uiModel \<Rightarrow> bool" where
  reachable_init: "viewFlag \<in> Some ` {0 ..< viewCount} \<union> {None} \<Longrightarrow> reachable (initialModel now s viewFlag agentFlag)"
| reachable_step: "reachable m \<Longrightarrow> reachable (fst (Update now m ms))"

text \<open>The selection is in range for the current snapshot, or zero when there is no agent.\<close>

definition selectionInRange :: "uiModel \<Rightarrow> bool" where
  "selectionInRange m =
     (let n = int (length (Agents (snap m)))
      in if n = 0 then selectedAgent m = 0 else 0 \<le> selectedAgent m \<and> selectedAgent m < n)"

section \<open>Snapshot builder (internal/snapshot/snapshot.go)\<close>

text \<open>
  The store handle and the frontier functions belong to the imported packages
  \<^verbatim>\<open>clockmail/pkg/store\<close> and \<^verbatim>\<open>clockmail/pkg/frontier\<close>; \<^verbatim>\<open>Build\<close> only calls them. What each call
  returns is a parameter here: a read that can fail gives an error (\<open>Inl\<close>) or its rows, and
  the store is not written to between the reads of one build. \<^verbatim>\<open>MaxEventID\<close> is an \<^verbatim>\<open>int64\<close>
  that \<^verbatim>\<open>Build\<close> subtracts from, so it is a 64-bit word read as signed.
\<close>

record Store =
  ListAgents :: "string + Agent list"
  MaxEventID :: "64 word"
  ListEventsSinceID :: "64 word \<Rightarrow> int \<Rightarrow> string + Event list"
  ListLocks :: "string + Lock list"
  GetActivePointstamps :: "string + Pointstamp list"
  CountEvents :: int

record FrontierPkg =
  ComputeFrontier :: "Pointstamp list \<Rightarrow> Pointstamp list"
  ComputeFrontierStatus :: "string \<Rightarrow> Timestamp \<Rightarrow> Pointstamp list \<Rightarrow> FrontierStatus"

text \<open>The two loops of \<^verbatim>\<open>Build\<close> over the agents. Ten minutes are \<open>600 * 10^9\<close> nanoseconds.\<close>

fun frontierStatus_loop ::
  "FrontierPkg \<Rightarrow> Pointstamp list \<Rightarrow> Agent list \<Rightarrow> (string \<rightharpoonup> FrontierStatus) \<Rightarrow> (string \<rightharpoonup> FrontierStatus)" where
  "frontierStatus_loop fp active [] fStatus = fStatus"
| "frontierStatus_loop fp active (ag # rest) fStatus =
     frontierStatus_loop fp active rest
       (fStatus(Agent.ID ag \<mapsto>
          ComputeFrontierStatus fp (Agent.ID ag)
            \<lparr>Timestamp.Epoch = Agent.Epoch ag, Round = Agent.Round ag\<rparr> active))"

fun countStale_loop :: "int \<Rightarrow> Agent list \<Rightarrow> int \<times> int \<Rightarrow> int \<times> int" where
  "countStale_loop now [] counts = counts"
| "countStale_loop now (ag # rest) (activeCount, staleCount) =
     (if now - LastSeen ag > 600000000000
      then countStale_loop now rest (activeCount, staleCount + 1)
      else countStale_loop now rest (activeCount + 1, staleCount))"

definition eventLimit :: int where
  "eventLimit = 500"

definition Build :: "FrontierPkg \<Rightarrow> int \<Rightarrow> Store \<Rightarrow> string + DataSnapshot" where
  "Build fp now s =
     (case ListAgents s of
        Inl err \<Rightarrow> Inl err
      | Inr agents \<Rightarrow>
         (let maxID = MaxEventID s;
              sinceID = maxID - word_of_int eventLimit;
              sinceID = (if sint sinceID < 0 then 0 else sinceID)
          in case ListEventsSinceID s sinceID eventLimit of
               Inl err \<Rightarrow> Inl err
             | Inr evs \<Rightarrow>
                (case ListLocks s of
                   Inl err \<Rightarrow> Inl err
                 | Inr lks \<Rightarrow>
                    (case GetActivePointstamps s of
                       Inl err \<Rightarrow> Inl err
                     | Inr active \<Rightarrow>
                        (let f = ComputeFrontier fp active;
                             fStatus = frontierStatus_loop fp active agents Map.empty;
                             counts = countStale_loop now agents (0, 0)
                         in Inr \<lparr>Agents = agents, Events = evs, Locks = lks, Frontier = f,
                                  FrontierStatusMap = fStatus,
                                  ActiveAgents = fst counts, StaleAgents = snd counts,
                                  TotalEvents = CountEvents s,
                                  ActiveLocks = int (length lks), BuiltAt = now\<rparr>)))))"

text \<open>
  Modelled from the spec: a store over a table of events in insertion order, for the reads
  of section 6 that \<^verbatim>\<open>Build\<close> uses. Its highest id is the id of the last row, its count is the
  number of rows, and listing since an id gives the rows with a greater id, oldest first, up
  to the limit. It stands for the external store where a concrete one is needed.
\<close>

definition tableStore :: "Agent list \<Rightarrow> Event list \<Rightarrow> Store" where
  "tableStore ags tbl =
     \<lparr>ListAgents = Inr ags,
      MaxEventID = (if tbl = [] then 0 else word_of_int (Event.ID (last tbl))),
      ListEventsSinceID = (\<lambda>since limit. Inr (take (nat limit) (filter (\<lambda>e. sint since < Event.ID e) tbl))),
      ListLocks = Inr [],
      GetActivePointstamps = Inr [],
      CountEvents = int (length tbl)\<rparr>"

definition nullFrontier :: FrontierPkg where
  "nullFrontier =
     \<lparr>ComputeFrontier = (\<lambda>ps. ps),
      ComputeFrontierStatus = (\<lambda>ag ts ps. \<lparr>SafeToFinalize = True, BlockedBy = []\<rparr>)\<rparr>"

section \<open>Agent detail view (cmd/cmv/main.go)\<close>

text \<open>
  What the renderer takes from outside: the \<^verbatim>\<open>Render\<close> functions of the package-level lipgloss
  styles, the \<^verbatim>\<open>%q\<close> verb of \<^verbatim>\<open>fmt\<close>, \<^verbatim>\<open>shortDuration\<close> (whose seconds and minutes go through
  \<^verbatim>\<open>float64\<close>), and the clock that \<^verbatim>\<open>time.Since\<close> and \<^verbatim>\<open>time.Until\<close> read.
\<close>

record RenderEnv =
  dimStyle :: "string \<Rightarrow> string"
  msgToStyle :: "string \<Rightarrow> string"
  msgFromStyle :: "string \<Rightarrow> string"
  lockStyle :: "string \<Rightarrow> string"
  safeStyle :: "string \<Rightarrow> string"
  unsafeStyle :: "string \<Rightarrow> string"
  detailHeaderStyle :: "string \<Rightarrow> string"
  detailSectionStyle :: "string \<Rightarrow> string"
  quoted :: "string \<Rightarrow> string"
  shortDuration :: "int \<Rightarrow> string"
  clockNow :: int

text \<open>The \<^verbatim>\<open>%d\<close> and \<^verbatim>\<open>%-4d\<close> verbs of \<^verbatim>\<open>fmt.Sprintf\<close>, and \<^verbatim>\<open>strings.Join\<close>.\<close>

definition digitChar :: "nat \<Rightarrow> char" where
  "digitChar d = ''0123456789'' ! d"

fun formatNat :: "nat \<Rightarrow> string" where
  "formatNat n = (if n < 10 then [digitChar n] else formatNat (n div 10) @ [digitChar (n mod 10)])"

declare formatNat.simps [simp del]

definition formatInt :: "int \<Rightarrow> string" where
  "formatInt i = (if i < 0 then ''-'' @ formatNat (nat (- i)) else formatNat (nat i))"

definition padRight :: "nat \<Rightarrow> string \<Rightarrow> string" where
  "padRight n s = s @ replicate (n - length s) (CHR '' '')"

fun joinWith :: "string \<Rightarrow> string list \<Rightarrow> string" where
  "joinWith sep [] = []"
| "joinWith sep [x] = x"
| "joinWith sep (x # y # ys) = x @ sep @ joinWith sep (y # ys)"

definition newline :: string where
  "newline = [CHR 0x0A]"

text \<open>The header of the view: title and status badge, the clock line, the frontier line.\<close>

definition blockerText :: "Pointstamp \<Rightarrow> string" where
  "blockerText bl =
     Pointstamp.AgentID bl @ ''@e'' @ formatInt (Timestamp.Epoch (Timestamp bl))
       @ ''/r'' @ formatInt (Timestamp.Round (Timestamp bl))"

definition renderAgentDetailFor_header :: "RenderEnv \<Rightarrow> DataSnapshot \<Rightarrow> Agent \<Rightarrow> string \<Rightarrow> string" where
  "renderAgentDetailFor_header env sn agent agentID =
     (let stale = (clockNow env - LastSeen agent > 600000000000);
          statusBadge = (if stale then unsafeStyle env ''STALE'' else safeStyle env ''ACTIVE'');
          b = detailHeaderStyle env (''Agent: '' @ Agent.ID agent) @ ''  '' @ statusBadge @ newline;
          b = b @ dimStyle env (''  Lamport clock: '' @ formatInt (Clock agent)
                  @ '' | Progress: e'' @ formatInt (Agent.Epoch agent)
                  @ ''/r'' @ formatInt (Agent.Round agent)
                  @ '' | Last seen: '' @ shortDuration env (clockNow env - LastSeen agent) @ '' ago'')
                @ newline
      in case FrontierStatusMap sn agentID of
           None \<Rightarrow> b
         | Some fs \<Rightarrow>
             (if SafeToFinalize fs
              then b @ ''  Frontier: '' @ safeStyle env ''SAFE'' @ '' (epoch='' @ formatInt (Agent.Epoch agent)
                     @ '' round='' @ formatInt (Agent.Round agent) @ '')'' @ newline
              else b @ ''  Frontier: '' @ unsafeStyle env ''BLOCKED'' @ '' by ''
                     @ joinWith '', '' (map blockerText (BlockedBy fs)) @ newline))"

text \<open>The loop over the locks, with its builder and its count of the agent's locks.\<close>

fun renderAgentDetailFor_locks_loop :: "RenderEnv \<Rightarrow> string \<Rightarrow> Lock list \<Rightarrow> string \<times> nat \<Rightarrow> string \<times> nat" where
  "renderAgentDetailFor_locks_loop env agentID [] st = st"
| "renderAgentDetailFor_locks_loop env agentID (l # rest) (b, agentLocks) =
     (if Lock.AgentID l = agentID
      then renderAgentDetailFor_locks_loop env agentID rest
             (b @ lockStyle env (''  '' @ Path l @ ''  (L:'' @ formatInt (Lock.LamportTS l)
                    @ '', expires in '' @ shortDuration env (ExpiresAt l - clockNow env) @ '')'') @ newline,
              agentLocks + 1)
      else renderAgentDetailFor_locks_loop env agentID rest (b, agentLocks))"

text \<open>
  The three loops over the events run the index from the last event down to the first and
  stop at a count; their list argument is the events in that order, newest first.
\<close>

fun renderAgentDetailFor_sent_loop :: "RenderEnv \<Rightarrow> string \<Rightarrow> Event list \<Rightarrow> string \<times> nat \<Rightarrow> string \<times> nat" where
  "renderAgentDetailFor_sent_loop env agentID [] st = st"
| "renderAgentDetailFor_sent_loop env agentID (e # older) (b, sentCount) =
     (if sentCount < 15 then
        (if Kind e = EventMsg \<and> Event.AgentID e = agentID
         then (let bdy = Body e;
                   bdy = (if length bdy > 80 then take 80 bdy @ ''...'' else bdy)
               in renderAgentDetailFor_sent_loop env agentID older
                    (b @ ''  '' @ dimStyle env (''[L:'' @ formatInt (Event.LamportTS e) @ '']'')
                       @ '' -> '' @ msgToStyle env (Target e) @ '': '' @ bdy @ newline,
                     sentCount + 1))
         else renderAgentDetailFor_sent_loop env agentID older (b, sentCount))
      else (b, sentCount))"

fun renderAgentDetailFor_recv_loop :: "RenderEnv \<Rightarrow> string \<Rightarrow> Event list \<Rightarrow> string \<times> nat \<Rightarrow> string \<times> nat" where
  "renderAgentDetailFor_recv_loop env agentID [] st = st"
| "renderAgentDetailFor_recv_loop env agentID (e # older) (b, recvCount) =
     (if recvCount < 15 then
        (if Kind e = EventMsg \<and> Target e = agentID
         then (let bdy = Body e;
                   bdy = (if length bdy > 80 then take 80 bdy @ ''...'' else bdy)
               in renderAgentDetailFor_recv_loop env agentID older
                    (b @ ''  '' @ dimStyle env (''[L:'' @ formatInt (Event.LamportTS e) @ '']'')
                       @ '' '' @ msgFromStyle env (Event.AgentID e) @ '': '' @ bdy @ newline,
                     recvCount + 1))
         else renderAgentDetailFor_recv_loop env agentID older (b, recvCount))
      else (b, recvCount))"

definition activityDetail :: "RenderEnv \<Rightarrow> Event \<Rightarrow> string" where
  "activityDetail env e =
     (case Kind e of
        EventMsg \<Rightarrow> ''-> '' @ Target e @ '': '' @ truncateText (Body e) 60
      | EventLockReq \<Rightarrow> lockStyle env (''lock '' @ Target e)
      | EventLockRel \<Rightarrow> dimStyle env (''unlock '' @ Target e)
      | EventProgress \<Rightarrow> dimStyle env (''heartbeat e='' @ formatInt (Event.Epoch e)
                                          @ '' r='' @ formatInt (Event.Round e))
      | EventOther k \<Rightarrow> k @ '' '' @ Target e)"

fun renderAgentDetailFor_activity_loop :: "RenderEnv \<Rightarrow> string \<Rightarrow> Event list \<Rightarrow> string \<times> nat \<Rightarrow> string \<times> nat" where
  "renderAgentDetailFor_activity_loop env agentID [] st = st"
| "renderAgentDetailFor_activity_loop env agentID (e # older) (b, actCount) =
     (if actCount < 20 then
        (if Event.AgentID e \<noteq> agentID
         then renderAgentDetailFor_activity_loop env agentID older (b, actCount)
         else renderAgentDetailFor_activity_loop env agentID older
                (b @ ''  '' @ dimStyle env (''[L:'' @ padRight 4 (formatInt (Event.LamportTS e)) @ '']'')
                   @ '' '' @ activityDetail env e @ newline,
                 actCount + 1))
      else (b, actCount))"

definition noneLine :: "RenderEnv \<Rightarrow> string \<times> nat \<Rightarrow> string" where
  "noneLine env st = (if snd st = 0 then fst st @ dimStyle env ''  (none)'' @ newline else fst st)"

definition renderAgentDetailFor :: "RenderEnv \<Rightarrow> DataSnapshot \<Rightarrow> string \<Rightarrow> string" where
  "renderAgentDetailFor env sn agentID =
     (case find (\<lambda>a. Agent.ID a = agentID) (Agents sn) of
        None \<Rightarrow> dimStyle env (''  Agent '' @ quoted env agentID @ '' not found'')
      | Some agent \<Rightarrow>
         (let b = renderAgentDetailFor_header env sn agent agentID;
              b = b @ newline;
              b = b @ detailSectionStyle env ''Locks Held'' @ newline;
              b = noneLine env (renderAgentDetailFor_locks_loop env agentID (Locks sn) (b, 0));
              b = b @ newline;
              b = b @ detailSectionStyle env ''Messages Sent'' @ newline;
              b = noneLine env (renderAgentDetailFor_sent_loop env agentID (rev (Events sn)) (b, 0));
              b = b @ newline;
              b = b @ detailSectionStyle env ''Messages Received'' @ newline;
              b = noneLine env (renderAgentDetailFor_recv_loop env agentID (rev (Events sn)) (b, 0));
              b = b @ newline;
              b = b @ detailSectionStyle env ''Recent Activity'' @ newline;
              b = noneLine env (renderAgentDetailFor_activity_loop env agentID (rev (Events sn)) (b, 0))
          in b))"

section \<open>Vocabulary of the proofs and sample data\<close>

text \<open>A timeline group is a run: it is not empty and all its events carry the group's clock value.\<close>

definition run_ok :: "timelineGroup \<Rightarrow> bool" where
  "run_ok g = (timelineGroup.events g \<noteq> []
     \<and> (\<forall>e\<in>set (timelineGroup.events g). Event.LamportTS e = timelineGroup.lamportTS g))"

text \<open>
  Putting wrapped lines back together: each line is followed by its separator. The
  separators of one paragraph are empty (a hard split, or the end of the paragraph) or the
  one space the wrap consumed; the end of a paragraph other than the last adds the newline.
\<close>

definition rejoin :: "string list \<Rightarrow> string list \<Rightarrow> string" where
  "rejoin ls seps = concat (map2 (@) ls seps)"

fun join_newline :: "string list \<Rightarrow> string" where
  "join_newline [] = []"
| "join_newline [p] = p"
| "join_newline (p # q # ps) = p @ [CHR 0x0A] @ join_newline (q # ps)"

definition para_seps :: "string set" where
  "para_seps = {'''', '' ''}"

definition text_seps :: "string set" where
  "text_seps = {'''', '' '', [CHR 0x0A], '' '' @ [CHR 0x0A]}"

text \<open>Events, agents and snapshots in the style of the fixtures of \<^verbatim>\<open>view_test.go\<close>.\<close>

definition testEvent :: "int \<Rightarrow> string \<Rightarrow> int \<Rightarrow> EventKind \<Rightarrow> string \<Rightarrow> string \<Rightarrow> Event" where
  "testEvent i ag ts k tgt bdy =
     \<lparr>Event.ID = i, AgentID = ag, LamportTS = ts, Kind = k, Target = tgt, Body = bdy,
      Epoch = 0, Round = 0, CreatedAt = 0\<rparr>"

definition testAgent :: "string \<Rightarrow> int \<Rightarrow> Agent" where
  "testAgent i c = \<lparr>Agent.ID = i, Clock = c, Epoch = 0, Round = 0, Registered = 0, LastSeen = 0\<rparr>"

definition testSnapshot :: "Agent list \<Rightarrow> Event list \<Rightarrow> DataSnapshot" where
  "testSnapshot ags evs =
     \<lparr>Agents = ags, Events = evs, Locks = [], Frontier = [], FrontierStatusMap = Map.empty,
      ActiveAgents = int (length ags), StaleAgents = 0, TotalEvents = int (length evs),
      ActiveLocks = 0, BuiltAt = 0\<rparr>"

text \<open>
  A section of the agent detail view: the styled title, then its entries, or the line
  \<^verbatim>\<open>(none)\<close> when it has no entry. The preamble is what the view shows before its three
  message sections: header, blank line, the locks section, blank line.
\<close>

definition detailSection :: "RenderEnv \<Rightarrow> string \<Rightarrow> string list \<Rightarrow> string" where
  "detailSection env title entries =
     detailSectionStyle env title @ newline
       @ (if entries = [] then dimStyle env ''  (none)'' @ newline else concat entries)"

definition detailPreamble :: "RenderEnv \<Rightarrow> DataSnapshot \<Rightarrow> Agent \<Rightarrow> string \<Rightarrow> string" where
  "detailPreamble env sn agent agentID =
     noneLine env (renderAgentDetailFor_locks_loop env agentID (Locks sn)
       (renderAgentDetailFor_header env sn agent agentID @ newline
          @ detailSectionStyle env ''Locks Held'' @ newline, 0)) @ newline"

definition testEnv :: RenderEnv where
  "testEnv =
     \<lparr>dimStyle = (\<lambda>s. s), msgToStyle = (\<lambda>s. s), msgFromStyle = (\<lambda>s. s), lockStyle = (\<lambda>s. s),
      safeStyle = (\<lambda>s. s), unsafeStyle = (\<lambda>s. s), detailHeaderStyle = (\<lambda>s. s),
      detailSectionStyle = (\<lambda>s. s), quoted = (\<lambda>s. s), shortDuration = (\<lambda>d. ''0s''),
      clockNow = 0\<rparr>"

section \<open>Timeline grouping\<close>

lemma groupByLamport_loop_concat:
  "concat (map timelineGroup.events (groupByLamport_loop es gs cur))
     = concat (map timelineGroup.events gs) @ timelineGroup.events cur @ es"
  by (induction es arbitrary: gs cur) auto

lemma groupByLamport_loop_runs:
  "\<forall>g\<in>set gs. run_ok g \<Longrightarrow>
   \<forall>e\<in>set (timelineGroup.events cur). Event.LamportTS e = timelineGroup.lamportTS cur \<Longrightarrow>
   timelineGroup.events cur \<noteq> [] \<or> (es \<noteq> [] \<and> Event.LamportTS (hd es) = timelineGroup.lamportTS cur) \<Longrightarrow>
   \<forall>g\<in>set (groupByLamport_loop es gs cur). run_ok g"
proof (induction es arbitrary: gs cur)
  case Nil
  then show ?case by (auto simp: run_ok_def)
next
  case (Cons e es)
  show ?case
  proof (cases "Event.LamportTS e \<noteq> timelineGroup.lamportTS cur")
    case True
    with Cons.prems have ne: "timelineGroup.events cur \<noteq> []" by auto
    have "\<forall>g\<in>set (groupByLamport_loop es (gs @ [cur])
             \<lparr>timelineGroup.lamportTS = Event.LamportTS e, events = [e]\<rparr>). run_ok g"
      by (rule Cons.IH) (use Cons.prems ne in \<open>auto simp: run_ok_def\<close>)
    with True show ?thesis by simp
  next
    case False
    have "\<forall>g\<in>set (groupByLamport_loop es gs
             (cur\<lparr>timelineGroup.events := timelineGroup.events cur @ [e]\<rparr>)). run_ok g"
      by (rule Cons.IH) (use Cons.prems False in \<open>auto simp: run_ok_def\<close>)
    with False show ?thesis by simp
  qed
qed

lemma groupByLamport_loop_increasing:
  "sorted (map Event.LamportTS es) \<Longrightarrow>
   sorted_wrt (<) (map timelineGroup.lamportTS gs @ [timelineGroup.lamportTS cur]) \<Longrightarrow>
   \<forall>e\<in>set es. timelineGroup.lamportTS cur \<le> Event.LamportTS e \<Longrightarrow>
   sorted_wrt (<) (map timelineGroup.lamportTS (groupByLamport_loop es gs cur))"
proof (induction es arbitrary: gs cur)
  case Nil
  then show ?case by simp
next
  case (Cons e es)
  show ?case
  proof (cases "Event.LamportTS e \<noteq> timelineGroup.lamportTS cur")
    case True
    with Cons.prems have lt: "timelineGroup.lamportTS cur < Event.LamportTS e" by auto
    have "sorted_wrt (<) (map timelineGroup.lamportTS (groupByLamport_loop es (gs @ [cur])
             \<lparr>timelineGroup.lamportTS = Event.LamportTS e, events = [e]\<rparr>))"
      by (rule Cons.IH) (use Cons.prems lt in \<open>auto simp: sorted_wrt_append\<close>)
    with True show ?thesis by simp
  next
    case False
    have "sorted_wrt (<) (map timelineGroup.lamportTS (groupByLamport_loop es gs
             (cur\<lparr>timelineGroup.events := timelineGroup.events cur @ [e]\<rparr>)))"
      by (rule Cons.IH) (use Cons.prems False in auto)
    with False show ?thesis by simp
  qed
qed

text \<open>
  Claim C2. For an event list sorted ascending by logical clock, \<^verbatim>\<open>groupByLamport\<close> returns
  groups whose event lists, concatenated in group order, are the input list; every group is
  a non-empty run of events that all carry the group's clock value; and the clock values of
  the groups are strictly increasing, so no two groups share a clock value and every run is
  maximal.
\<close>

theorem groupByLamport_partitions:
  assumes "sorted (map Event.LamportTS evs)"
  shows "concat (map timelineGroup.events (groupByLamport evs)) = evs
       \<and> (\<forall>g\<in>set (groupByLamport evs). timelineGroup.events g \<noteq> []
             \<and> (\<forall>e\<in>set (timelineGroup.events g). Event.LamportTS e = timelineGroup.lamportTS g))
       \<and> sorted_wrt (<) (map timelineGroup.lamportTS (groupByLamport evs))"
proof (cases evs)
  case Nil
  then show ?thesis by (simp add: groupByLamport_def)
next
  case (Cons e0 es)
  let ?c = "\<lparr>timelineGroup.lamportTS = Event.LamportTS e0, events = []\<rparr>"
  have g: "groupByLamport evs = groupByLamport_loop evs [] ?c"
    by (simp add: groupByLamport_def Cons)
  have 1: "concat (map timelineGroup.events (groupByLamport evs)) = evs"
    unfolding g by (simp add: groupByLamport_loop_concat)
  have "\<forall>g\<in>set (groupByLamport_loop evs [] ?c). run_ok g"
    by (rule groupByLamport_loop_runs) (simp_all add: Cons)
  then have 2: "\<forall>g\<in>set (groupByLamport evs). timelineGroup.events g \<noteq> []
             \<and> (\<forall>e\<in>set (timelineGroup.events g). Event.LamportTS e = timelineGroup.lamportTS g)"
    unfolding g run_ok_def .
  have "sorted_wrt (<) (map timelineGroup.lamportTS (groupByLamport_loop evs [] ?c))"
    by (rule groupByLamport_loop_increasing) (use assms Cons in auto)
  then have 3: "sorted_wrt (<) (map timelineGroup.lamportTS (groupByLamport evs))"
    unfolding g .
  from 1 2 3 show ?thesis by blast
qed

theorem groupByLamport_partitions_witness:
  "sorted (map Event.LamportTS
       [testEvent 1 ''a'' 1 EventMsg ''b'' ''hi'', testEvent 2 ''b'' 1 EventProgress [] [],
        testEvent 3 ''a'' 2 EventLockReq ''f'' []])
   \<and> map timelineGroup.lamportTS (groupByLamport
       [testEvent 1 ''a'' 1 EventMsg ''b'' ''hi'', testEvent 2 ''b'' 1 EventProgress [] [],
        testEvent 3 ''a'' 2 EventLockReq ''f'' []]) = [1, 2]
   \<and> concat (map timelineGroup.events (groupByLamport
       [testEvent 1 ''a'' 1 EventMsg ''b'' ''hi'', testEvent 2 ''b'' 1 EventProgress [] [],
        testEvent 3 ''a'' 2 EventLockReq ''f'' []]))
     = [testEvent 1 ''a'' 1 EventMsg ''b'' ''hi'', testEvent 2 ''b'' 1 EventProgress [] [],
        testEvent 3 ''a'' 2 EventLockReq ''f'' []]"
proof -
  let ?evs = "[testEvent 1 ''a'' 1 EventMsg ''b'' ''hi'', testEvent 2 ''b'' 1 EventProgress [] [],
        testEvent 3 ''a'' 2 EventLockReq ''f'' []]"
  have h: "sorted (map Event.LamportTS ?evs)" by (simp add: testEvent_def)
  have "map timelineGroup.lamportTS (groupByLamport ?evs) = [1, 2]"
    by (simp add: groupByLamport_def testEvent_def)
  with h groupByLamport_partitions[OF h] show ?thesis by blast
qed

section \<open>Concurrency classification\<close>

lemma isConcurrentGroup_loop_iff:
  "isConcurrentGroup_loop first es \<longleftrightarrow> (\<exists>e\<in>set es. Event.AgentID e \<noteq> first)"
  by (induction es) auto

lemma card_ge2_iff: "finite S \<Longrightarrow> 2 \<le> card S \<longleftrightarrow> (\<exists>a\<in>S. \<exists>b\<in>S. a \<noteq> b)"
proof -
  assume "finite S"
  then have "card S \<le> Suc 0 \<longleftrightarrow> (\<forall>a\<in>S. \<forall>b\<in>S. a = b)"
    by (rule card_le_Suc0_iff_eq)
  then show ?thesis by auto
qed

text \<open>
  Claim C3. \<^verbatim>\<open>isConcurrentGroup\<close> is true exactly for the groups that have at least two events
  and at least two distinct agent ids among them; so it is false for a singleton group and
  for a group whose events all have one agent id.
\<close>

theorem isConcurrentGroup_iff:
  "isConcurrentGroup g \<longleftrightarrow>
     2 \<le> length (timelineGroup.events g) \<and> 2 \<le> card (Event.AgentID ` set (timelineGroup.events g))"
proof (cases "timelineGroup.events g")
  case Nil
  then show ?thesis by (simp add: isConcurrentGroup_def)
next
  case (Cons e es)
  let ?ids = "Event.AgentID ` set (timelineGroup.events g)"
  have "isConcurrentGroup g \<longleftrightarrow> es \<noteq> [] \<and> (\<exists>x\<in>set es. Event.AgentID x \<noteq> Event.AgentID e)"
    by (auto simp: isConcurrentGroup_def Cons isConcurrentGroup_loop_iff)
  also have "\<dots> \<longleftrightarrow> (\<exists>a\<in>?ids. \<exists>b\<in>?ids. a \<noteq> b)"
    unfolding Cons by (auto; metis)
  also have "\<dots> \<longleftrightarrow> 2 \<le> card ?ids"
    by (simp add: card_ge2_iff)
  finally have *: "isConcurrentGroup g \<longleftrightarrow> 2 \<le> card ?ids" .
  have "card ?ids \<le> length (timelineGroup.events g)"
    by (meson card_image_le card_length le_trans List.finite_set)
  with * show ?thesis by auto
qed

theorem isConcurrentGroup_iff_witness:
  "isConcurrentGroup \<lparr>timelineGroup.lamportTS = 1, events =
       [testEvent 1 ''a'' 1 EventMsg ''b'' ''hi'', testEvent 2 ''b'' 1 EventProgress [] []]\<rparr>
   \<and> \<not> isConcurrentGroup \<lparr>timelineGroup.lamportTS = 1, events =
       [testEvent 1 ''a'' 1 EventMsg ''b'' ''hi'', testEvent 2 ''a'' 1 EventProgress [] []]\<rparr>
   \<and> 2 \<le> card (Event.AgentID ` set
       [testEvent 1 ''a'' 1 EventMsg ''b'' ''hi'', testEvent 2 ''b'' 1 EventProgress [] []])"
proof -
  let ?g = "\<lparr>timelineGroup.lamportTS = 1, events =
       [testEvent 1 ''a'' 1 EventMsg ''b'' ''hi'', testEvent 2 ''b'' 1 EventProgress [] []]\<rparr>"
  have a: "isConcurrentGroup ?g" by (simp add: isConcurrentGroup_def testEvent_def)
  have b: "\<not> isConcurrentGroup \<lparr>timelineGroup.lamportTS = 1, events =
       [testEvent 1 ''a'' 1 EventMsg ''b'' ''hi'', testEvent 2 ''a'' 1 EventProgress [] []]\<rparr>"
    by (simp add: isConcurrentGroup_def testEvent_def)
  from a isConcurrentGroup_iff[of ?g] b show ?thesis by simp
qed

section \<open>Causal witnesses\<close>

lemma buildCausalSet_loop_iff:
  "buildCausalSet_loop es c i \<longleftrightarrow> c i \<or> (\<exists>e\<in>set es. Event.ID e = i \<and> Kind e = EventMsg)"
  by (induction es arbitrary: c) auto

text \<open>
  Claim C4. The set \<^verbatim>\<open>buildCausalSet\<close> returns holds exactly the ids of the message events of
  the list. Event ids are assigned by the store and strictly increasing, so the ids of a list
  of events are pairwise distinct; for every such list an event of the list is marked as a
  causal witness if and only if its kind is message, and no lock-request, lock-release,
  heartbeat or other-kind event is marked.
\<close>

theorem buildCausalSet_message_ids:
  "(\<forall>i. buildCausalSet evs i \<longleftrightarrow> (\<exists>e\<in>set evs. Event.ID e = i \<and> Kind e = EventMsg))
   \<and> (distinct (map Event.ID evs) \<longrightarrow> (\<forall>e\<in>set evs. markedCausal evs e \<longleftrightarrow> Kind e = EventMsg))"
proof -
  have a: "\<And>i. buildCausalSet evs i \<longleftrightarrow> (\<exists>e\<in>set evs. Event.ID e = i \<and> Kind e = EventMsg)"
    by (simp add: buildCausalSet_def buildCausalSet_loop_iff)
  have "\<And>e e'. distinct (map Event.ID evs) \<Longrightarrow> e \<in> set evs \<Longrightarrow> e' \<in> set evs
          \<Longrightarrow> Event.ID e' = Event.ID e \<Longrightarrow> e' = e"
    by (meson distinct_map inj_onD)
  then show ?thesis unfolding markedCausal_def a by blast
qed

theorem buildCausalSet_message_ids_witness:
  "distinct (map Event.ID
      [testEvent 1 ''a'' 1 EventMsg ''b'' ''hi'', testEvent 2 ''b'' 1 EventProgress [] []])
   \<and> markedCausal [testEvent 1 ''a'' 1 EventMsg ''b'' ''hi'', testEvent 2 ''b'' 1 EventProgress [] []]
        (testEvent 1 ''a'' 1 EventMsg ''b'' ''hi'')
   \<and> \<not> markedCausal [testEvent 1 ''a'' 1 EventMsg ''b'' ''hi'', testEvent 2 ''b'' 1 EventProgress [] []]
        (testEvent 2 ''b'' 1 EventProgress [] [])"
proof -
  let ?evs = "[testEvent 1 ''a'' 1 EventMsg ''b'' ''hi'', testEvent 2 ''b'' 1 EventProgress [] []]"
  have d: "distinct (map Event.ID ?evs)" by (simp add: testEvent_def)
  have k: "Kind (testEvent 1 ''a'' 1 EventMsg ''b'' ''hi'') = EventMsg"
          "Kind (testEvent 2 ''b'' 1 EventProgress [] []) \<noteq> EventMsg"
    by (simp_all add: testEvent_def)
  from buildCausalSet_message_ids[of ?evs] d
  have "\<forall>e\<in>set ?evs. markedCausal ?evs e \<longleftrightarrow> Kind e = EventMsg" by blast
  with d k show ?thesis by simp
qed

section \<open>Word wrapping\<close>

lemma split_newline_from_nonempty: "split_newline_from cur s \<noteq> []"
  by (induction s arbitrary: cur) auto

lemma join_split_newline_from: "join_newline (split_newline_from cur s) = cur @ s"
proof (induction s arbitrary: cur)
  case Nil show ?case by simp
next
  case (Cons c cs)
  show ?case
  proof (cases "c = CHR 0x0A")
    case True
    obtain p ps where "split_newline_from [] cs = p # ps"
      using split_newline_from_nonempty by (cases "split_newline_from [] cs") auto
    with Cons[of "[]"] True show ?thesis by simp
  next
    case False
    with Cons[of "cur @ [c]"] show ?thesis by simp
  qed
qed

lemma findCut_cases:
  "findCut s w = - 1 \<or> (0 < findCut s w \<and> nat (findCut s w) \<le> w \<and> s ! nat (findCut s w) = CHR '' '')"
  by (induction w) (auto simp: nat_add_distrib)

lemma wrapParagraph_loop_rejoin:
  "0 < w \<Longrightarrow> \<exists>ls seps. wrapParagraph_loop s w acc = Some (acc @ ls) \<and> length seps = length ls
        \<and> set seps \<subseteq> {'''', '' ''} \<and> rejoin ls seps = s \<and> (s \<noteq> [] \<longrightarrow> ls \<noteq> [])"
proof (induction "length s" arbitrary: s acc rule: less_induct)
  case less
  show ?case
  proof (cases "s = []")
    case True
    then have "wrapParagraph_loop s w acc = Some (acc @ [])"
      by (subst wrapParagraph_loop.simps) simp
    then show ?thesis using True by (intro exI[of _ "[]"]) (simp add: rejoin_def)
  next
    case ne: False
    show ?thesis
    proof (cases "length s \<le> w")
      case True
      then have "wrapParagraph_loop s w acc = Some (acc @ [s])"
        using ne by (subst wrapParagraph_loop.simps) simp
      then show ?thesis 
        by (intro exI[of _ "[s]"] exI[of _ "['''']"]) (simp add: rejoin_def)
    next
      case long: False
      show ?thesis
      proof (cases "findCut s w \<le> 0")
        case True
        have step: "wrapParagraph_loop s w acc = wrapParagraph_loop (drop w s) w (acc @ [take w s])"
          using ne long True by (subst wrapParagraph_loop.simps) (simp add: Let_def)
        have "length (drop w s) < length s" using \<open>0 < w\<close> ne by simp
        from less.hyps[OF this \<open>0 < w\<close>, of "acc @ [take w s]"]
        obtain ls seps where r: "wrapParagraph_loop (drop w s) w (acc @ [take w s]) = Some ((acc @ [take w s]) @ ls)"
          "length seps = length ls" "set seps \<subseteq> {'''', '' ''}" "rejoin ls seps = drop w s"
          by blast
        show ?thesis
          by (intro exI[of _ "take w s # ls"] exI[of _ "'''' # seps"])
             (use step r in \<open>simp add: rejoin_def\<close>)
      next
        case False
        define c where "c = nat (findCut s w)"
        from False findCut_cases[of s w] have c: "0 < c" "c \<le> w" "s ! c = CHR '' ''"
          by (auto simp: c_def)
        have clt: "c < length s" using c long by simp
        have step: "wrapParagraph_loop s w acc = wrapParagraph_loop (drop (c + 1) s) w (acc @ [take c s])"
          using ne long False by (subst wrapParagraph_loop.simps) (simp add: Let_def c_def)
        have "length (drop (c + 1) s) < length s" using ne by simp
        from less.hyps[OF this \<open>0 < w\<close>, of "acc @ [take c s]"]
        obtain ls seps where r: "wrapParagraph_loop (drop (c + 1) s) w (acc @ [take c s]) = Some ((acc @ [take c s]) @ ls)"
          "length seps = length ls" "set seps \<subseteq> {'''', '' ''}" "rejoin ls seps = drop (c + 1) s"
          by blast
        have "take c s @ '' '' @ drop (c + 1) s = s"
          using id_take_nth_drop[OF clt] c(3) by simp
        then show ?thesis
          by (intro exI[of _ "take c s # ls"] exI[of _ "'' '' # seps"])
             (use step r in \<open>simp add: rejoin_def\<close>)
      qed
    qed
  qed
qed

lemma wrapParagraph_rejoin:
  assumes "0 < w"
  shows "\<exists>ls seps. wrapParagraph s w = Some ls \<and> length seps = length ls
        \<and> set seps \<subseteq> {'''', '' ''} \<and> rejoin ls seps = s \<and> ls \<noteq> []"
proof (cases "length s \<le> w")
  case True
  then show ?thesis
    by (intro exI[of _ "[s]"] exI[of _ "['''']"]) (simp add: rejoin_def wrapParagraph_def)
next
  case False
  then have "s \<noteq> []" by auto
  with wrapParagraph_loop_rejoin[OF assms, of s "[]"] False show ?thesis
    by (auto simp: wrapParagraph_def)
qed


lemma rejoin_append:
  "length ls = length seps \<Longrightarrow> rejoin (ls @ ls') (seps @ seps') = rejoin ls seps @ rejoin ls' seps'"
  by (simp add: rejoin_def)

lemma rejoin_mark_last:
  assumes "length seps = length ls" "ls \<noteq> []"
  shows "rejoin ls (butlast seps @ [last seps @ t]) = rejoin ls seps @ t"
proof -
  from assms have sn: "seps \<noteq> []" by auto
  have "rejoin (butlast ls @ [last ls]) (butlast seps @ [last seps @ t])
      = rejoin (butlast ls) (butlast seps) @ last ls @ last seps @ t"
    using assms by (subst rejoin_append) (simp_all add: rejoin_def)
  also have "\<dots> = rejoin (butlast ls @ [last ls]) (butlast seps @ [last seps]) @ t"
    using assms by (subst rejoin_append) (simp_all add: rejoin_def)
  finally show ?thesis using assms sn by simp
qed


lemma para_seps_sub: "para_seps \<subseteq> text_seps"
  by (simp add: para_seps_def text_seps_def)

lemma para_seps_newline: "x \<in> para_seps \<Longrightarrow> x @ [CHR 0x0A] \<in> text_seps"
  by (auto simp add: para_seps_def text_seps_def)

lemma wrapText_loop_rejoin:
  assumes "0 < w"
  shows "ps \<noteq> [] \<Longrightarrow> \<exists>ls seps. wrapText_loop ps w acc = Some (acc @ ls) \<and> length seps = length ls
        \<and> set seps \<subseteq> text_seps \<and> rejoin ls seps = join_newline ps"
proof (induction ps arbitrary: acc rule: join_newline.induct)
  case 1
  then show ?case by simp
next
  case (2 p)
  from wrapParagraph_rejoin[OF assms, of p] obtain ls seps where
    r: "wrapParagraph p w = Some ls" "length seps = length ls" "set seps \<subseteq> para_seps"
       "rejoin ls seps = p" unfolding para_seps_def by blast
  have a: "wrapText_loop [p] w acc = Some (acc @ ls)" using r(1) by simp
  have b: "set seps \<subseteq> text_seps" using r(3) para_seps_sub by blast
  have c: "rejoin ls seps = join_newline [p]" using r(4) by simp
  from a r(2) b c show ?case by blast
next
  case (3 p q ps)
  from wrapParagraph_rejoin[OF assms, of p] obtain ls1 seps1 where
    r1: "wrapParagraph p w = Some ls1" "length seps1 = length ls1" "set seps1 \<subseteq> para_seps"
       "rejoin ls1 seps1 = p" "ls1 \<noteq> []" unfolding para_seps_def by blast
  have "q # ps \<noteq> []" by simp
  from 3(1)[OF this, of "acc @ ls1"] obtain ls2 seps2 where
    r2: "wrapText_loop (q # ps) w (acc @ ls1) = Some ((acc @ ls1) @ ls2)" "length seps2 = length ls2"
        "set seps2 \<subseteq> text_seps"
        "rejoin ls2 seps2 = join_newline (q # ps)" by blast
  define seps1' where "seps1' = butlast seps1 @ [last seps1 @ [CHR 0x0A]]"
  from r1 have sn: "seps1 \<noteq> []" by auto
  then have "last seps1 \<in> para_seps" using r1(3) last_in_set by blast
  then have la: "last seps1 @ [CHR 0x0A] \<in> text_seps" by (rule para_seps_newline)
  have "set (butlast seps1) \<subseteq> para_seps" using r1(3) in_set_butlastD by fast
  then have bl: "set (butlast seps1) \<subseteq> text_seps" using para_seps_sub by blast
  have s1: "set seps1' \<subseteq> text_seps" unfolding seps1'_def using la bl by simp
  have l1: "length seps1' = length ls1" unfolding seps1'_def using r1(2) r1(5) by (cases ls1) auto
  have "rejoin (ls1 @ ls2) (seps1' @ seps2) = rejoin ls1 seps1' @ rejoin ls2 seps2"
    using l1 by (simp add: rejoin_append)
  also have "rejoin ls1 seps1' = p @ [CHR 0x0A]"
    unfolding seps1'_def using rejoin_mark_last[OF r1(2) r1(5)] r1(4) by simp
  finally have rj: "rejoin (ls1 @ ls2) (seps1' @ seps2) = join_newline (p # q # ps)"
    using r2(4) by simp
  have a: "wrapText_loop (p # q # ps) w acc = Some (acc @ (ls1 @ ls2))"
    using r1(1) r2(1) by simp
  have b: "length (seps1' @ seps2) = length (ls1 @ ls2)" using l1 r2(2) by simp
  have c: "set (seps1' @ seps2) \<subseteq> text_seps"
    using s1 r2(3) by simp
  from a b c rj show ?case by blast
qed

text \<open>
  Claim C5. For every body and every width, \<^verbatim>\<open>wrapText\<close> returns, and its lines followed each
  by a separator give back the body byte for byte, where every separator is empty (a hard
  split or the end of the text), the single space a word break consumed, the newline that
  ended a paragraph, or that space followed by that newline. So no byte of the body is lost
  other than such a space or newline, whose place is known. (A width that is not positive is
  replaced by 80.)
\<close>

theorem wrapText_lossless:
  "\<exists>ls seps. wrapText s w = Some ls \<and> length seps = length ls
      \<and> set seps \<subseteq> {'''', '' '', [CHR 0x0A], '' '' @ [CHR 0x0A]}
      \<and> concat (map2 (@) ls seps) = s"
proof -
  define n where "n = nat (if w \<le> 0 then 80 else w)"
  have "0 < n" by (simp add: n_def)
  from wrapText_loop_rejoin[OF this split_newline_from_nonempty, of "[]" s "[]"]
  obtain ls seps where r: "wrapText_loop (split_newline_from [] s) n [] = Some ls"
    "length seps = length ls" "set seps \<subseteq> text_seps"
    "rejoin ls seps = join_newline (split_newline_from [] s)" by auto
  have "wrapText s w = Some ls"
    using r(1) by (simp add: wrapText_def split_newline_def n_def)
  moreover have "concat (map2 (@) ls seps) = s"
    using r(4) by (simp add: join_split_newline_from rejoin_def)
  ultimately show ?thesis using r(2,3) unfolding text_seps_def by blast
qed

theorem wrapText_lossless_witness:
  "wrapText ''one two three four five'' 10 = Some [''one two'', ''three four'', ''five'']
   \<and> (\<exists>seps. length seps = 3
      \<and> set seps \<subseteq> {'''', '' '', [CHR 0x0A], '' '' @ [CHR 0x0A]}
      \<and> concat (map2 (@) [''one two'', ''three four'', ''five''] seps) = ''one two three four five'')"
proof -
  have e: "wrapText ''one two three four five'' 10 = Some [''one two'', ''three four'', ''five'']"
    by code_simp
  from wrapText_lossless[of "''one two three four five''" 10] e show ?thesis
    by (auto simp: numeral_3_eq_3)
qed

section \<open>Diagram rows and cells\<close>

lemma sortInt64s_inner_insert:
  "sorted xs \<Longrightarrow> \<exists>zs. sortInt64s_inner (xs @ x # rest) (length xs) = zs @ rest
      \<and> sorted zs \<and> mset zs = mset xs + {#x#}"
proof (induction xs arbitrary: rest rule: rev_induct)
  case Nil
  have "sortInt64s_inner (x # rest) 0 = x # rest"
    by (subst sortInt64s_inner.simps) simp
  then show ?case by (intro exI[of _ "[x]"]) simp
next
  case (snoc y ys)
  let ?s = "(ys @ [y]) @ x # rest"
  have nj: "?s ! length (ys @ [y]) = x" by (simp add: nth_append)
  have nj1: "?s ! (length (ys @ [y]) - 1) = y" by (simp add: nth_append)
  show ?case
  proof (cases "x < y")
    case True
    have sw: "?s[length (ys @ [y]) := y, length (ys @ [y]) - 1 := x] = ys @ x # (y # rest)"
      by (simp add: list_update_append)
    have step: "sortInt64s_inner ?s (length (ys @ [y])) = sortInt64s_inner (ys @ x # (y # rest)) (length ys)"
      by (subst sortInt64s_inner.simps) (use True nj nj1 sw in simp)
    from snoc.prems have sy: "sorted ys" and le: "\<forall>z\<in>set ys. z \<le> y"
      by (auto simp: sorted_append)
    from snoc.IH[OF sy, of "y # rest"] obtain zs where
      zs: "sortInt64s_inner (ys @ x # y # rest) (length ys) = zs @ y # rest" "sorted zs"
          "mset zs = mset ys + {#x#}" by blast
    have "set zs = set ys \<union> {x}" using zs(3) by (metis set_mset_mset set_mset_union set_mset_single)
    then have "sorted (zs @ [y])" using zs(2) le True by (auto simp: sorted_append)
    moreover have "mset (zs @ [y]) = mset (ys @ [y]) + {#x#}" using zs(3) by simp
    moreover have "sortInt64s_inner ?s (length (ys @ [y])) = (zs @ [y]) @ rest"
      using step zs(1) by simp
    ultimately show ?thesis by blast
  next
    case False
    have "sortInt64s_inner ?s (length (ys @ [y])) = ?s"
      by (subst sortInt64s_inner.simps) (use False nj nj1 in simp)
    then have "sortInt64s_inner ?s (length (ys @ [y])) = (ys @ [y, x]) @ rest" by simp
    moreover have "sorted (ys @ [y, x])" using snoc.prems False by (auto simp: sorted_append)
    moreover have "mset (ys @ [y, x]) = mset (ys @ [y]) + {#x#}" by simp
    ultimately show ?thesis by blast
  qed
qed

lemma sortInt64s_inner_prefix:
  assumes "i < length s" "sorted (take i s)"
  shows "length (sortInt64s_inner s i) = length s \<and> mset (sortInt64s_inner s i) = mset s
       \<and> sorted (take (Suc i) (sortInt64s_inner s i))"
proof -
  have s: "s = take i s @ s ! i # drop (Suc i) s" using assms(1) by (rule id_take_nth_drop)
  have li: "length (take i s) = i" using assms(1) by simp
  from sortInt64s_inner_insert[OF assms(2), of "s ! i" "drop (Suc i) s"] obtain zs where
    zs: "sortInt64s_inner (take i s @ s ! i # drop (Suc i) s) (length (take i s)) = zs @ drop (Suc i) s"
        "sorted zs" "mset zs = mset (take i s) + {#s ! i#}" by blast
  from zs(1) have r: "sortInt64s_inner s i = zs @ drop (Suc i) s" using s li by simp
  have lz: "length zs = Suc i" using zs(3) li by (metis size_mset size_union size_single add.commute plus_1_eq_Suc)
  have "mset (zs @ drop (Suc i) s) = mset (take i s @ s ! i # drop (Suc i) s)" using zs(3) by simp
  then have m: "mset (sortInt64s_inner s i) = mset s" using r s by simp
  have "length (sortInt64s_inner s i) = length s" using m by (metis size_mset)
  moreover have "take (Suc i) (sortInt64s_inner s i) = zs" using r lz by simp
  ultimately show ?thesis using m zs(2) by simp
qed

lemma sortInt64s_fold:
  "Suc 0 \<le> b \<Longrightarrow> b \<le> length s \<Longrightarrow>
   length (fold (\<lambda>i s. sortInt64s_inner s i) [1..<b] s) = length s
   \<and> mset (fold (\<lambda>i s. sortInt64s_inner s i) [1..<b] s) = mset s
   \<and> sorted (take b (fold (\<lambda>i s. sortInt64s_inner s i) [1..<b] s))"
proof (induction b)
  case 0
  then show ?case by simp
next
  case (Suc b)
  show ?case
  proof (cases "b = 0")
    case True
    then show ?thesis by (cases s) simp_all
  next
    case False
    define r where "r = fold (\<lambda>i s. sortInt64s_inner s i) [1..<b] s"
    from Suc False have ih: "length r = length s" "mset r = mset s" "sorted (take b r)"
      by (simp_all add: r_def)
    have b: "b < length r" using Suc.prems ih(1) by simp
    have f: "fold (\<lambda>i s. sortInt64s_inner s i) [1..<Suc b] s = sortInt64s_inner r b"
      using False by (simp add: r_def)
    from sortInt64s_inner_prefix[OF b ih(3)] ih show ?thesis unfolding f by simp
  qed
qed

lemma sortInt64s_sorted_mset: "sorted (sortInt64s s) \<and> mset (sortInt64s s) = mset s"
proof (cases "s = []")
  case True
  then show ?thesis by (simp add: sortInt64s_def)
next
  case False
  then have l1: "Suc 0 \<le> length s" by (cases s) auto
  let ?F = "fold (\<lambda>i s. sortInt64s_inner s i) [1..<length s] s"
  from sortInt64s_fold[OF l1 le_refl]
  have f: "length ?F = length s" "mset ?F = mset s" "sorted (take (length s) ?F)"
    by blast+
  have "take (length s) ?F = ?F" using f(1) by simp
  with f(3) have "sorted ?F" by metis
  with f(2) show ?thesis unfolding sortInt64s_def by blast
qed


lemma lastCell_snoc:
  "lastCell (evs @ [e]) ts ag =
     (if Event.LamportTS e = ts \<and> Event.AgentID e = ag
      then Some \<lparr>event = e, label = diagramLabel (Kind e)\<rparr> else lastCell evs ts ag)"
  by (simp add: lastCell_def Let_def)

lemma diagram_inv_init: "diagram_inv (Map.empty, []) []"
  by (simp add: diagram_inv_def)

lemma diagram_inv_step:
  assumes "diagram_inv st seen"
  shows "diagram_inv (buildDiagramData_step e st) (seen @ [e])"
proof (cases "fst st (Event.LamportTS e)")
  case None
  then have notin: "Event.LamportTS e \<notin> set (snd st)"
    using assms by (auto simp: diagram_inv_def)
  have nocell: "\<And>ag. lastCell seen (Event.LamportTS e) ag = None"
  proof -
    fix ag
    have "Event.LamportTS e \<notin> Event.LamportTS ` set seen"
      using notin assms by (simp add: diagram_inv_def)
    then have "\<forall>x\<in>set seen. \<not> (Event.LamportTS x = Event.LamportTS e \<and> Event.AgentID x = ag)"
      by (metis imageI)
    then have "filter (\<lambda>x. Event.LamportTS x = Event.LamportTS e \<and> Event.AgentID x = ag) seen = []"
      by (simp add: filter_empty_conv)
    then show "lastCell seen (Event.LamportTS e) ag = None" by (simp add: lastCell_def)
  qed
  show ?thesis
    using assms None notin nocell
    unfolding diagram_inv_def buildDiagramData_step_def Let_def
    by (auto simp: lastCell_snoc)
next
  case (Some r)
  then have isin: "Event.LamportTS e \<in> set (snd st)"
    using assms by (auto simp: diagram_inv_def)
  show ?thesis
    using assms Some isin
    unfolding diagram_inv_def buildDiagramData_step_def Let_def
    by (auto simp: lastCell_snoc)
qed

lemma diagram_inv_loop:
  "diagram_inv st seen \<Longrightarrow> diagram_inv (buildDiagramData_loop es st) (seen @ es)"
proof (induction es arbitrary: st seen)
  case Nil
  then show ?case by simp
next
  case (Cons e es)
  from Cons.IH[OF diagram_inv_step[OF Cons.prems, of e]] show ?case by simp
qed

lemma diagram_inv_key:
  assumes "diagram_inv (rowMap, tss) seen"
  shows "\<forall>ts\<in>set tss. diagramRow.lamportTS (the (rowMap ts)) = ts"
proof
  fix ts assume "ts \<in> set tss"
  with assms have "ts \<in> dom rowMap" by (simp add: diagram_inv_def)
  then obtain r where "rowMap ts = Some r" by blast
  with assms show "diagramRow.lamportTS (the (rowMap ts)) = ts" by (simp add: diagram_inv_def)
qed

lemma buildDiagramData_rows_total:
  "set tss \<subseteq> dom rowMap \<Longrightarrow> buildDiagramData_rows rowMap tss = Some (map (\<lambda>ts. the (rowMap ts)) tss)"
  by (induction tss) auto

lemma find_row:
  "distinct tss \<Longrightarrow> ts \<in> set tss \<Longrightarrow> \<forall>t\<in>set tss. diagramRow.lamportTS (f t) = t \<Longrightarrow>
   find (\<lambda>r. diagramRow.lamportTS r = ts) (map f tss) = Some (f ts)"
  by (induction tss) auto

lemma buildDiagramData_result:
  obtains rowMap tss where
    "diagram_inv (rowMap, tss) evs"
    "buildDiagramData agents evs = Some (map Agent.ID agents, map (\<lambda>ts. the (rowMap ts)) (sortInt64s tss))"
    "sorted (sortInt64s tss)" "distinct (sortInt64s tss)" "set (sortInt64s tss) = set tss"
proof -
  obtain rowMap tss where st: "buildDiagramData_loop evs (Map.empty, []) = (rowMap, tss)"
    by (cases "buildDiagramData_loop evs (Map.empty, [])") auto
  from diagram_inv_loop[OF diagram_inv_init, of evs] st have inv: "diagram_inv (rowMap, tss) evs"
    by simp
  have m: "mset (sortInt64s tss) = mset tss" and so: "sorted (sortInt64s tss)"
    using sortInt64s_sorted_mset by blast+
  have se: "set (sortInt64s tss) = set tss" using m by (rule mset_eq_setD)
  have di: "distinct (sortInt64s tss)" using m inv
    by (metis diagram_inv_def mset_eq_imp_distinct_iff snd_conv)
  have "set (sortInt64s tss) \<subseteq> dom rowMap" using se inv by (simp add: diagram_inv_def)
  from buildDiagramData_rows_total[OF this]
  have "buildDiagramData agents evs = Some (map Agent.ID agents, map (\<lambda>ts. the (rowMap ts)) (sortInt64s tss))"
    by (simp add: buildDiagramData_def st)
  with inv so di se show ?thesis using that by blast
qed

text \<open>
  Claim C7. For every agent list and event list, \<^verbatim>\<open>buildDiagramData\<close> returns rows whose clock
  values are strictly increasing and are exactly the clock values that occur in the event
  list: one row for each distinct value, whatever the order of the events.
\<close>

theorem buildDiagramData_rows_strictly_increasing:
  "\<exists>rows. buildDiagramData agents evs = Some (map Agent.ID agents, rows)
     \<and> sorted_wrt (<) (map diagramRow.lamportTS rows)
     \<and> set (map diagramRow.lamportTS rows) = Event.LamportTS ` set evs"
proof -
  obtain rowMap tss where r:
    "diagram_inv (rowMap, tss) evs"
    "buildDiagramData agents evs = Some (map Agent.ID agents, map (\<lambda>ts. the (rowMap ts)) (sortInt64s tss))"
    "sorted (sortInt64s tss)" "distinct (sortInt64s tss)" "set (sortInt64s tss) = set tss"
    by (rule buildDiagramData_result)
  have key: "\<forall>ts\<in>set (sortInt64s tss). diagramRow.lamportTS (the (rowMap ts)) = ts"
    using diagram_inv_key[OF r(1)] r(5) by simp
  define rows where "rows = map (\<lambda>ts. the (rowMap ts)) (sortInt64s tss)"
  have a: "buildDiagramData agents evs = Some (map Agent.ID agents, rows)"
    using r(2) by (simp add: rows_def)
  have b: "map diagramRow.lamportTS rows = sortInt64s tss"
    unfolding rows_def using key by (simp add: map_idI)
  have c: "sorted_wrt (<) (map diagramRow.lamportTS rows)"
    unfolding b using r(3,4) by (simp add: strict_sorted_iff)
  have "set (sortInt64s tss) = Event.LamportTS ` set evs"
    using r(1,5) by (simp add: diagram_inv_def)
  then have d: "set (map diagramRow.lamportTS rows) = Event.LamportTS ` set evs"
    unfolding b .
  from a c d show ?thesis by blast
qed

text \<open>
  Claim C8, amended. For every event of the input, the cell at the row of its clock value
  and the column of its agent holds the marker of the last input event with that clock
  value and that agent id; an event that no later event of its agent follows at its clock
  value is therefore shown by its own marker.
\<close>

theorem buildDiagramData_cell_last_event:
  assumes "e \<in> set evs"
  shows "diagramCellAt (buildDiagramData agents evs) (Event.LamportTS e) (Event.AgentID e) =
           (let e' = last (filter (\<lambda>x. Event.LamportTS x = Event.LamportTS e
                                      \<and> Event.AgentID x = Event.AgentID e) evs)
            in Some \<lparr>event = e', label = diagramLabel (Kind e')\<rparr>)"
proof -
  obtain rowMap tss where r:
    "diagram_inv (rowMap, tss) evs"
    "buildDiagramData agents evs = Some (map Agent.ID agents, map (\<lambda>ts. the (rowMap ts)) (sortInt64s tss))"
    "sorted (sortInt64s tss)" "distinct (sortInt64s tss)" "set (sortInt64s tss) = set tss"
    by (rule buildDiagramData_result)
  have key: "\<forall>ts\<in>set (sortInt64s tss). diagramRow.lamportTS (the (rowMap ts)) = ts"
    using diagram_inv_key[OF r(1)] r(5) by simp
  have mem: "Event.LamportTS e \<in> set (sortInt64s tss)"
    using assms r(1,5) by (simp add: diagram_inv_def)
  from find_row[OF r(4) mem key]
  have f: "find (\<lambda>r. diagramRow.lamportTS r = Event.LamportTS e) (map (\<lambda>ts. the (rowMap ts)) (sortInt64s tss))
            = Some (the (rowMap (Event.LamportTS e)))" .
  from mem r(5) have "Event.LamportTS e \<in> set tss" by simp
  with r(1) have "Event.LamportTS e \<in> dom rowMap" by (simp add: diagram_inv_def)
  then obtain row where row: "rowMap (Event.LamportTS e) = Some row" by blast
  with r(1) have c: "cells row (Event.AgentID e) = lastCell evs (Event.LamportTS e) (Event.AgentID e)"
    by (simp add: diagram_inv_def)
  have "filter (\<lambda>x. Event.LamportTS x = Event.LamportTS e \<and> Event.AgentID x = Event.AgentID e) evs \<noteq> []"
    using assms by (auto simp: filter_empty_conv)
  then have "lastCell evs (Event.LamportTS e) (Event.AgentID e) =
           (let e' = last (filter (\<lambda>x. Event.LamportTS x = Event.LamportTS e
                                      \<and> Event.AgentID x = Event.AgentID e) evs)
            in Some \<lparr>event = e', label = diagramLabel (Kind e')\<rparr>)"
    by (simp add: lastCell_def Let_def)
  then show ?thesis
    using r(2) f row c by (simp add: diagramCellAt_def)
qed

theorem buildDiagramData_rows_strictly_increasing_witness:
  "\<exists>rows. buildDiagramData [testAgent ''alice'' 10, testAgent ''bob'' 5]
       [testEvent 1 ''alice'' 5 EventProgress [] [], testEvent 2 ''bob'' 2 EventLockReq ''f'' [],
        testEvent 3 ''bob'' 5 EventMsg ''alice'' ''hi''] = Some ([''alice'', ''bob''], rows)
     \<and> sorted_wrt (<) (map diagramRow.lamportTS rows)
     \<and> set (map diagramRow.lamportTS rows) = {2, 5}"
proof -
  let ?evs = "[testEvent 1 ''alice'' 5 EventProgress [] [], testEvent 2 ''bob'' 2 EventLockReq ''f'' [],
        testEvent 3 ''bob'' 5 EventMsg ''alice'' ''hi'']"
  let ?ags = "[testAgent ''alice'' 10, testAgent ''bob'' 5]"
  from buildDiagramData_rows_strictly_increasing[of ?ags ?evs] obtain rows where
    r: "buildDiagramData ?ags ?evs = Some (map Agent.ID ?ags, rows)"
       "sorted_wrt (<) (map diagramRow.lamportTS rows)"
       "set (map diagramRow.lamportTS rows) = Event.LamportTS ` set ?evs" by blast
  have "set (map diagramRow.lamportTS rows) = {2, 5}"
    using r(3) by (auto simp: testEvent_def)
  with r(1,2) show ?thesis by (auto simp: testAgent_def)
qed

text \<open>
  Claim C8, as stated, fails: two events of one agent at one clock value share a cell, and
  the cell keeps only the later one.
\<close>

theorem buildDiagramData_cell_overwritten_counterexample:
  "diagramCellAt (buildDiagramData [testAgent ''alice'' 10]
       [testEvent 1 ''alice'' 5 EventMsg ''bob'' ''hi'', testEvent 2 ''alice'' 5 EventProgress [] []])
     5 ''alice''
   = Some \<lparr>event = testEvent 2 ''alice'' 5 EventProgress [] [], label = ''*''\<rparr>
   \<and> diagramLabel (Kind (testEvent 1 ''alice'' 5 EventMsg ''bob'' ''hi'')) = ''>''"
  by (simp add: diagramCellAt_def buildDiagramData_def buildDiagramData_step_def sortInt64s_def
      sortInt64s_inner.simps testEvent_def)

theorem buildDiagramData_cell_last_event_witness:
  "testEvent 2 ''bob'' 2 EventLockReq ''f'' [] \<in> set
       [testEvent 1 ''alice'' 5 EventProgress [] [], testEvent 2 ''bob'' 2 EventLockReq ''f'' []]
   \<and> diagramCellAt (buildDiagramData [testAgent ''alice'' 10, testAgent ''bob'' 5]
       [testEvent 1 ''alice'' 5 EventProgress [] [], testEvent 2 ''bob'' 2 EventLockReq ''f'' []])
       2 ''bob''
     = Some \<lparr>event = testEvent 2 ''bob'' 2 EventLockReq ''f'' [], label = ''L''\<rparr>"
proof -
  let ?e = "testEvent 2 ''bob'' 2 EventLockReq ''f'' []"
  let ?evs = "[testEvent 1 ''alice'' 5 EventProgress [] [], ?e]"
  have h: "?e \<in> set ?evs" by simp
  from buildDiagramData_cell_last_event[OF h, of "[testAgent ''alice'' 10, testAgent ''bob'' 5]"]
  show ?thesis by (simp add: testEvent_def)
qed

section \<open>Agent selection after a refresh\<close>

lemma clearFilterOutside_fields [simp]:
  "snap (clearFilterOutside m) = snap m" "selectedAgent (clearFilterOutside m) = selectedAgent m"
  by (simp_all add: clearFilterOutside_def)

lemma updateKey_selection:
  assumes "selectionInRange m"
  shows "selectionInRange (fst (updateKey m k))"
proof (cases "viewKeys k")
  case (Some v)
  then show ?thesis using assms by (simp add: updateKey_def selectionInRange_def)
next
  case None
  show ?thesis
    using assms unfolding updateKey_def None selectionInRange_def Let_def
    by (simp split: if_splits)
qed

lemma applyAgentFlag_snap [simp]: "snap (applyAgentFlag ags flag i m) = snap m"
  by (induction ags arbitrary: i) auto

lemma applyAgentFlag_selected:
  "0 \<le> i \<Longrightarrow> selectedAgent (applyAgentFlag ags flag i m) = selectedAgent m
     \<or> (i \<le> selectedAgent (applyAgentFlag ags flag i m)
        \<and> selectedAgent (applyAgentFlag ags flag i m) < i + int (length ags))"
proof (induction ags arbitrary: i)
  case Nil
  then show ?case by simp
next
  case (Cons ag rest)
  from Cons.IH[of "i + 1"] Cons.prems show ?case by auto
qed

lemma initialModel_selection: "selectionInRange (initialModel now s viewFlag agentFlag)"
proof -
  define m where "m = (case viewFlag of None \<Rightarrow> newModel now s | Some v \<Rightarrow> (newModel now s)\<lparr>activeView := v\<rparr>)"
  have m: "snap m = s" "selectedAgent m = 0"
    by (simp_all add: m_def newModel_def split: option.splits)
  have "selectionInRange m \<and> selectionInRange (applyAgentFlag (Agents s) agentFlag 0 m)"
    using applyAgentFlag_selected[of 0 "Agents s" agentFlag m] m
    by (auto simp: selectionInRange_def Let_def)
  then show ?thesis by (simp add: initialModel_def Let_def m_def)
qed

lemma Update_selection:
  assumes "selectionInRange m"
  shows "selectionInRange (fst (Update now m ms))"
proof (cases ms)
  case (KeyMsg k)
  then show ?thesis using updateKey_selection[OF assms] by (simp add: Update_def)
next
  case (SnapshotReadyMsg sn err)
  then show ?thesis using assms
    by (auto simp: Update_def selectionInRange_def Let_def split: option.splits if_splits)
qed (use assms in \<open>simp_all add: Update_def selectionInRange_def\<close>)

lemma reachable_selection: "reachable m \<Longrightarrow> selectionInRange m"
  by (induction rule: reachable.induct) (simp_all add: initialModel_selection Update_selection)

text \<open>
  Claim C1. In every state the program can reach, processing a snapshot-ready message,
  whether it installs a snapshot with more, fewer or no agents or is dropped for its error,
  leaves the agent selection at an index of the agent list of the snapshot that is then
  current, or at 0 when that list is empty.
\<close>

theorem Update_snapshotReady_clamps_selection:
  assumes "reachable m"
  shows "selectionInRange (fst (Update now m (SnapshotReadyMsg sn err)))"
  using Update_selection[OF reachable_selection[OF assms]] .

theorem Update_snapshotReady_clamps_selection_witness:
  "reachable (fst (Update 0 (initialModel 0
       (testSnapshot [testAgent ''alice'' 10, testAgent ''bob'' 5] []) None []) (KeyMsg ''j'')))
   \<and> selectedAgent (fst (Update 0 (initialModel 0
       (testSnapshot [testAgent ''alice'' 10, testAgent ''bob'' 5] []) None []) (KeyMsg ''j''))) = 1
   \<and> selectedAgent (fst (Update 1 (fst (Update 0 (initialModel 0
       (testSnapshot [testAgent ''alice'' 10, testAgent ''bob'' 5] []) None []) (KeyMsg ''j'')))
       (SnapshotReadyMsg (Some (testSnapshot [testAgent ''alice'' 10] [])) None))) = 0"
proof -
  let ?m0 = "initialModel 0 (testSnapshot [testAgent ''alice'' 10, testAgent ''bob'' 5] []) None []"
  let ?m1 = "fst (Update 0 ?m0 (KeyMsg ''j''))"
  let ?m2 = "fst (Update 1 ?m1 (SnapshotReadyMsg (Some (testSnapshot [testAgent ''alice'' 10] [])) None))"
  have r0: "reachable ?m0" by (rule reachable_init) simp
  then have r1: "reachable ?m1" by (rule reachable_step)
  have s1: "selectedAgent ?m1 = 1"
    by (simp add: Update_def updateKey_def keyMatches_def initialModel_def newModel_def testSnapshot_def)
  have a: "Agents (snap ?m2) = [testAgent ''alice'' 10]"
    by (simp add: Update_def testSnapshot_def Let_def)
  from Update_snapshotReady_clamps_selection[OF r1, of 1 "Some (testSnapshot [testAgent ''alice'' 10] [])" None]
  have "selectedAgent ?m2 = 0" unfolding selectionInRange_def a by (simp add: Let_def)
  with r1 s1 show ?thesis by blast
qed

section \<open>Event window and total of a snapshot\<close>

lemma sint_minus_500:
  assumes "- (2 ^ 63) + 500 \<le> sint (m :: 64 word)"
  shows "sint (m - 500) = sint m - 500"
proof -
  have lt: "sint m < 2 ^ 63" using sint_lt[of m] by simp
  have "sint (m - 500) = signed_take_bit 63 (sint m - sint (500 :: 64 word))"
    by (simp add: sint_word_diff)
  also have "sint (500 :: 64 word) = 500" by simp
  also have "signed_take_bit 63 (sint m - 500) = sint m - 500"
    using assms lt by (intro signed_take_bit_int_eq_self) auto
  finally show ?thesis .
qed

lemma since_anchor:
  assumes "- (2 ^ 63) + 500 \<le> sint (m :: 64 word)"
  shows "(if sint (m - 500) < 0 then 0 else m - 500) = word_of_int (max (sint m - 500) 0)"
proof (cases "sint (m - 500) < 0")
  case True
  then show ?thesis using sint_minus_500[OF assms] by simp
next
  case False
  then have "max (sint m - 500) 0 = sint (m - 500)" using sint_minus_500[OF assms] by simp
  then show ?thesis using False by simp
qed

lemma Build_reads:
  assumes "- (2 ^ 63) + 500 \<le> sint (MaxEventID s)"
  shows "case Build fp now s of
           Inr sn \<Rightarrow>
             ListEventsSinceID s (word_of_int (max (sint (MaxEventID s) - 500) 0)) 500 = Inr (Events sn)
             \<and> TotalEvents sn = CountEvents s
         | Inl err \<Rightarrow>
             ListAgents s = Inl err
             \<or> ListEventsSinceID s (word_of_int (max (sint (MaxEventID s) - 500) 0)) 500 = Inl err
             \<or> ListLocks s = Inl err
             \<or> GetActivePointstamps s = Inl err"
  using since_anchor[OF assms]
  by (auto simp: Build_def eventLimit_def Let_def split: sum.splits)


text \<open>
  Claim C6. With a highest event id that is not within 500 of the least \<^verbatim>\<open>int64\<close> (ids are
  never negative), \<^verbatim>\<open>Build\<close> asks the store for the events since
  \<open>max (maxEventID - 500) 0\<close> with limit 500 and puts what the store answers in the snapshot,
  and the snapshot's \<^verbatim>\<open>TotalEvents\<close> is the store's count, whatever the highest id is; a build
  that fails returns the error of one of its four reads.
\<close>

theorem Build_anchor_and_count:
  assumes "- (2 ^ 63) + 500 \<le> sint (MaxEventID s)"
  shows "case Build fp now s of
           Inr sn \<Rightarrow>
             ListEventsSinceID s (word_of_int (max (sint (MaxEventID s) - 500) 0)) 500 = Inr (Events sn)
             \<and> TotalEvents sn = CountEvents s
         | Inl err \<Rightarrow>
             ListAgents s = Inl err
             \<or> ListEventsSinceID s (word_of_int (max (sint (MaxEventID s) - 500) 0)) 500 = Inl err
             \<or> ListLocks s = Inl err
             \<or> GetActivePointstamps s = Inl err"
  using since_anchor[OF assms]
  by (auto simp: Build_def eventLimit_def Let_def split: sum.splits)

theorem Build_anchor_and_count_witness:
  "- (2 ^ 63) + 500 \<le> sint (MaxEventID (tableStore [testAgent ''alice'' 3]
       [testEvent 10 ''alice'' 1 EventMsg ''bob'' ''old'', testEvent 700 ''alice'' 2 EventMsg ''bob'' ''new'']))
   \<and> (case Build nullFrontier 0 (tableStore [testAgent ''alice'' 3]
       [testEvent 10 ''alice'' 1 EventMsg ''bob'' ''old'', testEvent 700 ''alice'' 2 EventMsg ''bob'' ''new''])
       of Inr sn \<Rightarrow> Events sn = [testEvent 700 ''alice'' 2 EventMsg ''bob'' ''new''] \<and> TotalEvents sn = 2
        | Inl err \<Rightarrow> False)"
proof -
  let ?s = "tableStore [testAgent ''alice'' 3]
       [testEvent 10 ''alice'' 1 EventMsg ''bob'' ''old'', testEvent 700 ''alice'' 2 EventMsg ''bob'' ''new'']"
  have m: "MaxEventID ?s = 700" by (simp add: tableStore_def testEvent_def)
  have h: "- (2 ^ 63) + 500 \<le> sint (MaxEventID ?s)" unfolding m by simp
  have l: "ListEventsSinceID ?s (word_of_int (max (sint (MaxEventID ?s) - 500) 0)) 500
             = Inr [testEvent 700 ''alice'' 2 EventMsg ''bob'' ''new'']"
    unfolding m by (simp add: tableStore_def testEvent_def)
  have c: "CountEvents ?s = 2" by (simp add: tableStore_def)
  obtain sn where ok: "Build nullFrontier 0 ?s = Inr sn"
    by (simp add: Build_def tableStore_def Let_def)
  from Build_anchor_and_count[OF h, of nullFrontier 0] ok l c
  have "Events sn = [testEvent 700 ''alice'' 2 EventMsg ''bob'' ''new''] \<and> TotalEvents sn = 2"
    by simp
  with h ok show ?thesis by simp
qed

text \<open>
  With a store that lists the rows with an id greater than the anchor, oldest first, the
  anchored fetch keeps the newest row and every row within 500 ids of it, and the total
  is the number of rows even where the ids have gaps.
\<close>

lemma bounded_ids_length:
  assumes "distinct (map f xs)" "\<forall>x\<in>set xs. lo < f x \<and> f x \<le> (hi :: int)" "lo \<le> hi"
  shows "int (length xs) \<le> hi - lo"
proof -
  have "length xs = card (set (map f xs))"
    using assms(1) by (metis distinct_card length_map)
  also have "\<dots> \<le> card {lo<..hi}"
    using assms(2) by (intro card_mono) auto
  also have "\<dots> = nat (hi - lo)" by simp
  finally show ?thesis using assms(3) by simp
qed

lemma sint_word_of_int_64:
  "- (2 ^ 63) \<le> k \<Longrightarrow> k < 2 ^ 63 \<Longrightarrow> sint (word_of_int k :: 64 word) = k"
  by (simp add: sint_sbintrunc' signed_take_bit_int_eq_self)

lemma Build_retains_newest:
  assumes ids: "sorted_wrt (<) (map Event.ID tbl)"
    and pos: "\<forall>e\<in>set tbl. 0 < Event.ID e \<and> Event.ID e < 2 ^ 63"
    and ne: "tbl \<noteq> []"
  shows "\<exists>sn. Build fp now (tableStore ags tbl) = Inr sn
           \<and> Events sn = filter (\<lambda>e. Event.ID (last tbl) - 500 < Event.ID e) tbl
           \<and> last tbl \<in> set (Events sn)
           \<and> TotalEvents sn = int (length tbl)"
proof -
  let ?s = "tableStore ags tbl"
  let ?mx = "Event.ID (last tbl)"
  have lm: "last tbl \<in> set tbl" using ne by simp
  then have mx: "0 < ?mx" "?mx < 2 ^ 63" using pos by auto
  have sm: "sint (MaxEventID ?s) = ?mx"
    using ne mx by (simp add: tableStore_def sint_word_of_int_64)
  have h: "- (2 ^ 63) + 500 \<le> sint (MaxEventID ?s)" unfolding sm using mx by simp
  have an: "sint (word_of_int (max (?mx - 500) 0) :: 64 word) = max (?mx - 500) 0"
    using mx by (intro sint_word_of_int_64) auto
  have le: "\<forall>e\<in>set tbl. Event.ID e \<le> ?mx"
  proof
    fix e assume "e \<in> set tbl"
    have "sorted (map Event.ID tbl)" using ids by (simp add: strict_sorted_iff)
    then have "sorted (map Event.ID (butlast tbl) @ [?mx])"
      using ne by (metis append_butlast_last_id list.simps(8,9) map_append)
    then have "\<forall>x\<in>set (butlast tbl). Event.ID x \<le> ?mx"
      by (auto simp: sorted_append)
    moreover have "e \<in> set (butlast tbl) \<or> e = last tbl"
      using \<open>e \<in> set tbl\<close> ne by (metis append_butlast_last_id in_set_conv_decomp_first
          insert_iff list.simps(15) rotate1.simps(2) set_rotate1)
    ultimately show "Event.ID e \<le> ?mx" by auto
  qed
  let ?keep = "filter (\<lambda>e. max (?mx - 500) 0 < Event.ID e) tbl"
  have same: "?keep = filter (\<lambda>e. ?mx - 500 < Event.ID e) tbl"
    using pos by (intro filter_cong) auto
  have "distinct (map Event.ID ?keep)"
    using ids by (simp add: strict_sorted_iff distinct_map_filter)
  moreover have "\<forall>x\<in>set ?keep. ?mx - 500 < Event.ID x \<and> Event.ID x \<le> ?mx"
    using le by auto
  ultimately have "int (length ?keep) \<le> ?mx - (?mx - 500)"
    by (rule bounded_ids_length) simp
  then have len: "length ?keep \<le> 500" by simp
  have l: "ListEventsSinceID ?s (word_of_int (max (sint (MaxEventID ?s) - 500) 0)) 500 = Inr ?keep"
    unfolding sm using len by (simp add: tableStore_def an)
  obtain sn where ok: "Build fp now ?s = Inr sn"
    by (simp add: Build_def tableStore_def Let_def)
  from Build_reads[OF h, of fp now] ok l
  have e: "Events sn = ?keep" "TotalEvents sn = int (length tbl)"
    by (simp_all add: tableStore_def)
  have "last tbl \<in> set ?keep" using lm mx by simp
  with e ok same show ?thesis by simp
qed

section \<open>Message bodies in the agent detail view\<close>

lemma renderAgentDetailFor_sent_loop_eq:
  "renderAgentDetailFor_sent_loop env aid es (b, c) =
     (let shown = take (15 - c) (filter (\<lambda>e. Kind e = EventMsg \<and> Event.AgentID e = aid) es)
      in (b @ concat (map (\<lambda>e. ''  '' @ dimStyle env (''[L:'' @ formatInt (Event.LamportTS e) @ '']'')
                 @ '' -> '' @ msgToStyle env (Target e) @ '': '' @ truncateText (Body e) 80 @ newline) shown),
          c + length shown))"
proof (induction es arbitrary: b c)
  case Nil
  then show ?case by simp
next
  case (Cons e es)
  show ?case
  proof (cases "c < 15")
    case True
    then obtain k where k: "15 - c = Suc k" "15 - (c + 1) = k" by (cases "15 - c") auto
    show ?thesis
      using True Cons k by (auto simp: Let_def truncateText_def)
  next
    case False
    then show ?thesis by simp
  qed
qed

lemma renderAgentDetailFor_recv_loop_eq:
  "renderAgentDetailFor_recv_loop env aid es (b, c) =
     (let shown = take (15 - c) (filter (\<lambda>e. Kind e = EventMsg \<and> Target e = aid) es)
      in (b @ concat (map (\<lambda>e. ''  '' @ dimStyle env (''[L:'' @ formatInt (Event.LamportTS e) @ '']'')
                 @ '' '' @ msgFromStyle env (Event.AgentID e) @ '': '' @ truncateText (Body e) 80 @ newline) shown),
          c + length shown))"
proof (induction es arbitrary: b c)
  case Nil
  then show ?case by simp
next
  case (Cons e es)
  show ?case
  proof (cases "c < 15")
    case True
    then obtain k where k: "15 - c = Suc k" "15 - (c + 1) = k" by (cases "15 - c") auto
    show ?thesis
      using True Cons k by (auto simp: Let_def truncateText_def)
  next
    case False
    then show ?thesis by simp
  qed
qed

lemma renderAgentDetailFor_activity_loop_eq:
  "renderAgentDetailFor_activity_loop env aid es (b, c) =
     (let shown = take (20 - c) (filter (\<lambda>e. Event.AgentID e = aid) es)
      in (b @ concat (map (\<lambda>e. ''  '' @ dimStyle env (''[L:'' @ padRight 4 (formatInt (Event.LamportTS e)) @ '']'')
                 @ '' '' @ activityDetail env e @ newline) shown),
          c + length shown))"
proof (induction es arbitrary: b c)
  case Nil
  then show ?case by simp
next
  case (Cons e es)
  show ?case
  proof (cases "c < 20")
    case True
    then obtain k where k: "20 - c = Suc k" "20 - (c + 1) = k" by (cases "20 - c") auto
    show ?thesis
      using True Cons k by (auto simp: Let_def)
  next
    case False
    then show ?thesis by simp
  qed
qed

lemma noneLine_entries:
  "n = length shown \<Longrightarrow>
   noneLine env (b @ detailSectionStyle env title @ newline @ concat (map f shown), n)
     = b @ detailSection env title (map f shown)"
  by (cases shown) (simp_all add: noneLine_def detailSection_def)

lemma renderAgentDetailFor_sent_section:
  "noneLine env (renderAgentDetailFor_sent_loop env aid es (b @ detailSectionStyle env title @ newline, 0))
     = b @ detailSection env title
         (map (\<lambda>e. ''  '' @ dimStyle env (''[L:'' @ formatInt (Event.LamportTS e) @ '']'')
                 @ '' -> '' @ msgToStyle env (Target e) @ '': '' @ truncateText (Body e) 80 @ newline)
            (take 15 (filter (\<lambda>e. Kind e = EventMsg \<and> Event.AgentID e = aid) es)))"
  by (simp add: renderAgentDetailFor_sent_loop_eq Let_def noneLine_entries)

lemma renderAgentDetailFor_recv_section:
  "noneLine env (renderAgentDetailFor_recv_loop env aid es (b @ detailSectionStyle env title @ newline, 0))
     = b @ detailSection env title
         (map (\<lambda>e. ''  '' @ dimStyle env (''[L:'' @ formatInt (Event.LamportTS e) @ '']'')
                 @ '' '' @ msgFromStyle env (Event.AgentID e) @ '': '' @ truncateText (Body e) 80 @ newline)
            (take 15 (filter (\<lambda>e. Kind e = EventMsg \<and> Target e = aid) es)))"
  by (simp add: renderAgentDetailFor_recv_loop_eq Let_def noneLine_entries)

lemma renderAgentDetailFor_activity_section:
  "noneLine env (renderAgentDetailFor_activity_loop env aid es (b @ detailSectionStyle env title @ newline, 0))
     = b @ detailSection env title
         (map (\<lambda>e. ''  '' @ dimStyle env (''[L:'' @ padRight 4 (formatInt (Event.LamportTS e)) @ '']'')
                 @ '' '' @ activityDetail env e @ newline)
            (take 20 (filter (\<lambda>e. Event.AgentID e = aid) es)))"
  by (simp add: renderAgentDetailFor_activity_loop_eq Let_def noneLine_entries)

text \<open>
  Claim C10. For an agent of the snapshot, the agent detail view ends with its three
  message sections, and these show, newest first, at most 15 sent messages, 15 received
  messages and 20 events of the agent, one line each: the body of a sent or received
  message passes through the cut at 80 bytes and the body of a message under recent
  activity through the cut at 60 bytes, and a body longer than 80 bytes is cut to its first
  80 (or 60) bytes followed by three dots. No line of these sections is a wrapped body.
\<close>

theorem renderAgentDetailFor_truncates_bodies:
  assumes "find (\<lambda>a. Agent.ID a = aid) (Agents sn) = Some ag"
  shows "renderAgentDetailFor env sn aid =
           detailPreamble env sn ag aid
           @ detailSection env ''Messages Sent''
               (map (\<lambda>e. ''  '' @ dimStyle env (''[L:'' @ formatInt (Event.LamportTS e) @ '']'')
                       @ '' -> '' @ msgToStyle env (Target e) @ '': '' @ truncateText (Body e) 80 @ newline)
                  (take 15 (filter (\<lambda>e. Kind e = EventMsg \<and> Event.AgentID e = aid) (rev (Events sn)))))
           @ newline
           @ detailSection env ''Messages Received''
               (map (\<lambda>e. ''  '' @ dimStyle env (''[L:'' @ formatInt (Event.LamportTS e) @ '']'')
                       @ '' '' @ msgFromStyle env (Event.AgentID e) @ '': '' @ truncateText (Body e) 80 @ newline)
                  (take 15 (filter (\<lambda>e. Kind e = EventMsg \<and> Target e = aid) (rev (Events sn)))))
           @ newline
           @ detailSection env ''Recent Activity''
               (map (\<lambda>e. ''  '' @ dimStyle env (''[L:'' @ padRight 4 (formatInt (Event.LamportTS e)) @ '']'')
                       @ '' '' @ (if Kind e = EventMsg
                                  then ''-> '' @ Target e @ '': '' @ truncateText (Body e) 60
                                  else activityDetail env e) @ newline)
                  (take 20 (filter (\<lambda>e. Event.AgentID e = aid) (rev (Events sn)))))
         \<and> (\<forall>bd. 80 < length bd \<longrightarrow>
               truncateText bd 80 = take 80 bd @ ''...'' \<and> truncateText bd 60 = take 60 bd @ ''...'')"
proof -
  have act: "\<And>e. (if Kind e = EventMsg then ''-> '' @ Target e @ '': '' @ truncateText (Body e) 60
                    else activityDetail env e) = activityDetail env e"
    by (simp add: activityDetail_def)
  have cut: "\<forall>bd. 80 < length bd \<longrightarrow>
               truncateText bd 80 = take 80 bd @ ''...'' \<and> truncateText bd 60 = take 60 bd @ ''...''"
    by (simp add: truncateText_def)
  have "renderAgentDetailFor env sn aid =
           detailPreamble env sn ag aid
           @ detailSection env ''Messages Sent''
               (map (\<lambda>e. ''  '' @ dimStyle env (''[L:'' @ formatInt (Event.LamportTS e) @ '']'')
                       @ '' -> '' @ msgToStyle env (Target e) @ '': '' @ truncateText (Body e) 80 @ newline)
                  (take 15 (filter (\<lambda>e. Kind e = EventMsg \<and> Event.AgentID e = aid) (rev (Events sn)))))
           @ newline
           @ detailSection env ''Messages Received''
               (map (\<lambda>e. ''  '' @ dimStyle env (''[L:'' @ formatInt (Event.LamportTS e) @ '']'')
                       @ '' '' @ msgFromStyle env (Event.AgentID e) @ '': '' @ truncateText (Body e) 80 @ newline)
                  (take 15 (filter (\<lambda>e. Kind e = EventMsg \<and> Target e = aid) (rev (Events sn)))))
           @ newline
           @ detailSection env ''Recent Activity''
               (map (\<lambda>e. ''  '' @ dimStyle env (''[L:'' @ padRight 4 (formatInt (Event.LamportTS e)) @ '']'')
                       @ '' '' @ activityDetail env e @ newline)
                  (take 20 (filter (\<lambda>e. Event.AgentID e = aid) (rev (Events sn)))))"
    unfolding renderAgentDetailFor_def assms option.case Let_def
      renderAgentDetailFor_sent_section renderAgentDetailFor_recv_section
      renderAgentDetailFor_activity_section detailPreamble_def
    by simp
  then show ?thesis unfolding act using cut by blast
qed

theorem renderAgentDetailFor_truncates_bodies_witness:
  "find (\<lambda>a. Agent.ID a = ''alice'')
       (Agents (testSnapshot [testAgent ''alice'' 7]
          [testEvent 1 ''alice'' 7 EventMsg ''bob'' (replicate 90 (CHR ''x''))]))
     = Some (testAgent ''alice'' 7)
   \<and> renderAgentDetailFor testEnv (testSnapshot [testAgent ''alice'' 7]
          [testEvent 1 ''alice'' 7 EventMsg ''bob'' (replicate 90 (CHR ''x''))]) ''alice''
     = detailPreamble testEnv (testSnapshot [testAgent ''alice'' 7]
          [testEvent 1 ''alice'' 7 EventMsg ''bob'' (replicate 90 (CHR ''x''))]) (testAgent ''alice'' 7) ''alice''
       @ ''Messages Sent'' @ newline
       @ ''  [L:7] -> bob: '' @ replicate 80 (CHR ''x'') @ ''...'' @ newline
       @ newline
       @ ''Messages Received'' @ newline @ ''  (none)'' @ newline
       @ newline
       @ ''Recent Activity'' @ newline
       @ ''  [L:7   ] -> bob: '' @ replicate 60 (CHR ''x'') @ ''...'' @ newline"
proof -
  let ?sn = "testSnapshot [testAgent ''alice'' 7]
          [testEvent 1 ''alice'' 7 EventMsg ''bob'' (replicate 90 (CHR ''x''))]"
  have h: "find (\<lambda>a. Agent.ID a = ''alice'') (Agents ?sn) = Some (testAgent ''alice'' 7)"
    by (simp add: testSnapshot_def testAgent_def)
  have f: "formatInt 7 = ''7''"
    by (simp add: formatInt_def formatNat.simps digitChar_def)
  note t = renderAgentDetailFor_truncates_bodies[OF h, of testEnv, THEN conjunct1]
  have "renderAgentDetailFor testEnv ?sn ''alice''
     = detailPreamble testEnv ?sn (testAgent ''alice'' 7) ''alice''
       @ ''Messages Sent'' @ newline
       @ ''  [L:7] -> bob: '' @ replicate 80 (CHR ''x'') @ ''...'' @ newline
       @ newline
       @ ''Messages Received'' @ newline @ ''  (none)'' @ newline
       @ newline
       @ ''Recent Activity'' @ newline
       @ ''  [L:7   ] -> bob: '' @ replicate 60 (CHR ''x'') @ ''...'' @ newline"
    unfolding t
    by (simp add: detailSection_def testEnv_def testSnapshot_def testEvent_def truncateText_def
        padRight_def f numeral_3_eq_3)
  with h show ?thesis by simp
qed

end
